theory Spec2Isabelle
  imports Complex_Main "HOL-Library.Multiset"
begin

section \<open>Python values shared by the whole program\<close>

text \<open>
  The exceptions that the modelled part of \<^verbatim>\<open>main.py\<close> can raise.  \<^verbatim>\<open>main()\<close> catches
  \<^verbatim>\<open>ValueError\<close> (printed as a data error); \<^verbatim>\<open>KeyError\<close>, \<^verbatim>\<open>TypeError\<close> and
  \<^verbatim>\<open>StopIteration\<close> are caught nowhere and leave the process with a traceback.
\<close>

datatype error = KeyError | ValueError | TypeError | StopIteration

text \<open>
  A Python \<^verbatim>\<open>dict\<close> keeps its keys in insertion order, so it is an association list.
  A dict never holds a key twice; every operation below keeps that, and looks a key up
  with \<open>map_of\<close>.  Two dicts are equal under Python's \<^verbatim>\<open>==\<close> when they hold the same keys
  with equal values, in any order (\<open>dict_equal\<close> below); two dicts with the same \<open>map_of\<close>
  hold the same values under the same keys.
\<close>

type_synonym ('k, 'v) dict = "('k \<times> 'v) list"

definition dict_getitem :: "('k, 'v) dict \<Rightarrow> 'k \<Rightarrow> error + 'v" where
  \<comment> \<open>\<^verbatim>\<open>d[k]\<close>\<close>
  "dict_getitem d k = (case map_of d k of None \<Rightarrow> Inl KeyError | Some v \<Rightarrow> Inr v)"

fun dict_setitem :: "('k, 'v) dict \<Rightarrow> 'k \<Rightarrow> 'v \<Rightarrow> ('k, 'v) dict" where
  \<comment> \<open>\<^verbatim>\<open>d[k] = v\<close>: an existing key keeps its place, a new key goes last\<close>
  "dict_setitem [] k v = [(k, v)]"
| "dict_setitem ((k', v') # d) k v =
     (if k' = k then (k, v) # d else (k', v') # dict_setitem d k v)"

definition dict_pop :: "('k, 'v) dict \<Rightarrow> 'k \<Rightarrow> ('k, 'v) dict" where
  \<comment> \<open>\<^verbatim>\<open>d.pop(k, None)\<close>, the returned value dropped: no error when \<open>k\<close> is absent\<close>
  "dict_pop d k = filter (\<lambda>kv. fst kv \<noteq> k) d"

definition dict_keys :: "('k, 'v) dict \<Rightarrow> 'k list" where
  "dict_keys d = map fst d"

definition dict_values :: "('k, 'v) dict \<Rightarrow> 'v list" where
  "dict_values d = map snd d"

text \<open>
  A Python \<^verbatim>\<open>set\<close> is represented by the list of its elements, each once.  The order in
  which a \<^verbatim>\<open>for\<close> loop visits a set is fixed by the hash table, not by the language; the
  functions that loop over a set therefore take the order as a parameter \<open>iter\<close>, and
  \<open>iteration_order iter\<close> says all that Python promises about it: every element is visited
  exactly once.
\<close>

definition py_set :: "'k list \<Rightarrow> 'k list" where
  \<comment> \<open>\<^verbatim>\<open>set(xs)\<close>\<close>
  "py_set xs = remdups xs"

definition set_minus :: "'k list \<Rightarrow> 'k list \<Rightarrow> 'k list" where
  \<comment> \<open>\<^verbatim>\<open>a - b\<close>\<close>
  "set_minus a b = filter (\<lambda>k. k \<notin> set b) a"

definition set_inter :: "'k list \<Rightarrow> 'k list \<Rightarrow> 'k list" where
  \<comment> \<open>\<^verbatim>\<open>a & b\<close>\<close>
  "set_inter a b = filter (\<lambda>k. k \<in> set b) a"

definition iteration_order :: "('k list \<Rightarrow> 'k list) \<Rightarrow> bool" where
  "iteration_order iter \<longleftrightarrow> (\<forall>ks. mset (iter ks) = mset ks)"


section \<open>The config delta engine\<close>

text \<open>
  The values of a flat configuration are whatever \<^verbatim>\<open>json.load\<close> returns.  The engine
  copies them and compares two of them with \<^verbatim>\<open>!=\<close> on line 170, nothing else.  The
  functions of the engine therefore work on any type \<open>'v\<close> of values and take the
  comparison as the parameter \<open>ne\<close>; what is proved of them holds for every \<open>ne\<close>.

  \<open>json\<close> is the type of the values that \<^verbatim>\<open>json.load\<close> returns and \<open>py_ne\<close> is Python's
  \<^verbatim>\<open>!=\<close> on them.  It is not structural difference: \<^verbatim>\<open>bool\<close> is a subtype of \<^verbatim>\<open>int\<close> and
  numbers are compared by their value, so \<^verbatim>\<open>1\<close>, \<^verbatim>\<open>1.0\<close> and \<^verbatim>\<open>True\<close> are equal; two
  dicts are equal when they hold the same keys with equal values, in any order; and
  \<^verbatim>\<open>nan != nan\<close> is true, also for one and the same float object.  A finite float is
  given by its exact value, which is how Python compares it with an \<^verbatim>\<open>int\<close>.  \<open>JInf s\<close> is
  the infinity of sign \<open>s\<close>.  \<open>JNaN i\<close> is the NaN object with identity \<open>i\<close>: the items of a
  list and the values of a dict are compared with \<^verbatim>\<open>PyObject_RichCompareBool\<close>, which
  takes an object to be equal to itself before it asks \<^verbatim>\<open>==\<close>, and NaN is the one value
  for which this matters (\<^verbatim>\<open>json.load\<close> returns the same object for every \<^verbatim>\<open>NaN\<close> literal).
\<close>

datatype json =
    JNull
  | JBool bool
  | JInt int
  | JFloat rat
  | JInf bool
  | JNaN nat
  | JString string
  | JArray "json list"
  | JObject "(string \<times> json) list"

fun py_number :: "json \<Rightarrow> rat option" where
  "py_number (JBool b) = Some (if b then 1 else 0)"
| "py_number (JInt i) = Some (of_int i)"
| "py_number (JFloat r) = Some r"
| "py_number v = None"

text \<open>
  \<open>py_eq v w\<close>: \<open>v\<close> and \<open>w\<close> are the same object or \<^verbatim>\<open>v == w\<close>, as items of containers are
  compared.  A dict equals a dict of the same length that holds each of its keys with an
  equal value.
\<close>

fun py_eq :: "json \<Rightarrow> json \<Rightarrow> bool"
  and py_eq_list :: "json list \<Rightarrow> json list \<Rightarrow> bool"
  and py_eq_items :: "(string \<times> json) list \<Rightarrow> (string \<times> json) list \<Rightarrow> bool"
  and py_eq_lookup :: "string \<Rightarrow> json \<Rightarrow> (string \<times> json) list \<Rightarrow> bool" where
  "py_eq v w =
     (case v of
        JNull \<Rightarrow> (w = JNull)
      | JString s \<Rightarrow> (w = JString s)
      | JNaN i \<Rightarrow> (w = JNaN i)
      | JInf s \<Rightarrow> (w = JInf s)
      | JArray xs \<Rightarrow> (case w of JArray ys \<Rightarrow> py_eq_list xs ys | _ \<Rightarrow> False)
      | JObject a \<Rightarrow>
          (case w of JObject b \<Rightarrow> length a = length b \<and> py_eq_items a b | _ \<Rightarrow> False)
      | _ \<Rightarrow> (case py_number w of None \<Rightarrow> False | Some y \<Rightarrow> py_number v = Some y))"
| "py_eq_list [] ys = (ys = [])"
| "py_eq_list (x # xs) ys =
     (case ys of [] \<Rightarrow> False | y # ys' \<Rightarrow> py_eq x y \<and> py_eq_list xs ys')"
| "py_eq_items [] b = True"
| "py_eq_items ((k, v) # a) b = (py_eq_lookup k v b \<and> py_eq_items a b)"
| "py_eq_lookup k v [] = False"
| "py_eq_lookup k v ((k', w) # b) = (if k' = k then py_eq v w else py_eq_lookup k v b)"

definition py_ne :: "json \<Rightarrow> json \<Rightarrow> bool" where
  \<comment> \<open>\<^verbatim>\<open>v != w\<close>: for a float NaN true whatever \<open>w\<close> is, and otherwise the negation of \<^verbatim>\<open>==\<close>\<close>
  "py_ne v w = (case v of JNaN i \<Rightarrow> True | _ \<Rightarrow> \<not> py_eq v w)"

text \<open>
  Python's \<^verbatim>\<open>==\<close> on two dicts whose values are compared with \<open>ne\<close>: the same keys, and at
  each key the same value or two values that are not \<^verbatim>\<open>!=\<close>.
\<close>

definition dict_equal :: "('v \<Rightarrow> 'v \<Rightarrow> bool) \<Rightarrow> ('k, 'v) dict \<Rightarrow> ('k, 'v) dict \<Rightarrow> bool" where
  "dict_equal ne a b \<longleftrightarrow>
     set (dict_keys a) = set (dict_keys b) \<and>
     (\<forall>k \<in> set (dict_keys a).
        case (map_of a k, map_of b k) of
          (Some x, Some y) \<Rightarrow> x = y \<or> \<not> ne x y
        | _ \<Rightarrow> False)"

record 'v addition =
  add_key :: string
  add_val :: 'v

record 'v update =
  upd_key :: string
  upd_from :: 'v
  upd_to :: 'v

record 'v delta =
  additions :: "'v addition list"
  deletions :: "string list"
  updates :: "'v update list"

text \<open>
  \<^verbatim>\<open>DeltaJSONGenerator.generate\<close>, lines 154--176.  Each loop appends to its bucket; \<open>ne\<close> is
  the \<^verbatim>\<open>!=\<close> of line 170.
\<close>

fun additions_loop ::
  "(string, 'v) dict \<Rightarrow> string list \<Rightarrow> 'v addition list \<Rightarrow> error + 'v addition list" where
  "additions_loop patched_config [] acc = Inr acc"
| "additions_loop patched_config (k # ks) acc =
     (case dict_getitem patched_config k of
        Inl e \<Rightarrow> Inl e
      | Inr v \<Rightarrow> additions_loop patched_config ks (acc @ [\<lparr>add_key = k, add_val = v\<rparr>]))"

fun deletions_loop :: "string list \<Rightarrow> string list \<Rightarrow> string list" where
  "deletions_loop [] acc = acc"
| "deletions_loop (k # ks) acc = deletions_loop ks (acc @ [k])"

fun updates_loop ::
  "('v \<Rightarrow> 'v \<Rightarrow> bool) \<Rightarrow> (string, 'v) dict \<Rightarrow> (string, 'v) dict \<Rightarrow> string list
    \<Rightarrow> 'v update list \<Rightarrow> error + 'v update list" where
  "updates_loop ne config patched_config [] acc = Inr acc"
| "updates_loop ne config patched_config (k # ks) acc =
     (case dict_getitem config k of
        Inl e \<Rightarrow> Inl e
      | Inr a \<Rightarrow>
         (case dict_getitem patched_config k of
            Inl e \<Rightarrow> Inl e
          | Inr b \<Rightarrow>
              if ne a b
              then updates_loop ne config patched_config ks
                     (acc @ [\<lparr>upd_key = k, upd_from = a, upd_to = b\<rparr>])
              else updates_loop ne config patched_config ks acc))"

definition DeltaJSONGenerator_generate ::
  "(string list \<Rightarrow> string list) \<Rightarrow> ('v \<Rightarrow> 'v \<Rightarrow> bool) \<Rightarrow> (string, 'v) dict
    \<Rightarrow> (string, 'v) dict \<Rightarrow> error + 'v delta" where
  "DeltaJSONGenerator_generate iter ne config patched_config =
     (let config_keys = py_set (dict_keys config);
          patched_keys = py_set (dict_keys patched_config)
      in case additions_loop patched_config (iter (set_minus patched_keys config_keys)) [] of
           Inl e \<Rightarrow> Inl e
         | Inr adds \<Rightarrow>
            (let dels = deletions_loop (iter (set_minus config_keys patched_keys)) []
             in case updates_loop ne config patched_config
                       (iter (set_inter config_keys patched_keys)) [] of
                  Inl e \<Rightarrow> Inl e
                | Inr upds \<Rightarrow> Inr \<lparr>additions = adds, deletions = dels, updates = upds\<rparr>))"

text \<open>
  \<^verbatim>\<open>ResPatchedConfigGenerator.generate\<close>, lines 186--198.  The function works on dict
  objects: \<^verbatim>\<open>config.copy()\<close> makes a new object and the three loops change that object in
  place.  The store is the list of the dict objects that exist, an object's address its
  index; \<open>config\<close> is the address of the caller's dict.  The result is the address of the
  new dict and the store after the call.
\<close>

type_synonym 'v store = "(string, 'v) dict list"

definition dict_copy :: "'v store \<Rightarrow> nat \<Rightarrow> nat \<times> 'v store" where
  \<comment> \<open>\<^verbatim>\<open>d.copy()\<close>: a new object with the same items (the values are shared, not copied)\<close>
  "dict_copy s a = (length s, s @ [s ! a])"

fun apply_deletions :: "'v store \<Rightarrow> nat \<Rightarrow> string list \<Rightarrow> 'v store" where
  "apply_deletions s result [] = s"
| "apply_deletions s result (k # ks) =
     apply_deletions (s[result := dict_pop (s ! result) k]) result ks"

fun apply_updates :: "'v store \<Rightarrow> nat \<Rightarrow> 'v update list \<Rightarrow> 'v store" where
  "apply_updates s result [] = s"
| "apply_updates s result (u # us) =
     apply_updates (s[result := dict_setitem (s ! result) (upd_key u) (upd_to u)]) result us"

fun apply_additions :: "'v store \<Rightarrow> nat \<Rightarrow> 'v addition list \<Rightarrow> 'v store" where
  "apply_additions s result [] = s"
| "apply_additions s result (a # as) =
     apply_additions (s[result := dict_setitem (s ! result) (add_key a) (add_val a)]) result as"

definition ResPatchedConfigGenerator_generate ::
  "'v store \<Rightarrow> nat \<Rightarrow> 'v delta \<Rightarrow> nat \<times> 'v store" where
  "ResPatchedConfigGenerator_generate s config delta =
     (let (result, s1) = dict_copy s config;
          s2 = apply_deletions s1 result (deletions delta);
          s3 = apply_updates s2 result (updates delta);
          s4 = apply_additions s3 result (additions delta)
      in (result, s4))"

text \<open>
  The dict that \<^verbatim>\<open>ResPatchedConfigGenerator.generate(config, delta)\<close> returns, as a value:
  the call is run in a store that holds \<open>config\<close> alone.  Lemma \<open>generate_in_store\<close> shows
  that the returned dict is this one in every store.
\<close>

definition apply_delta :: "(string, 'v) dict \<Rightarrow> 'v delta \<Rightarrow> (string, 'v) dict" where
  "apply_delta config delta =
     (let (result, s) = ResPatchedConfigGenerator_generate [config] 0 delta in s ! result)"

text \<open>
  The patch as the specification words it, on finite maps: start from the base, remove
  every deleted key, then store every update, then store every addition.
\<close>

definition apply_spec :: "(string \<rightharpoonup> 'v) \<Rightarrow> 'v delta \<Rightarrow> (string \<rightharpoonup> 'v)" where
  "apply_spec base delta =
     (let r1 = fold (\<lambda>k r. r(k := None)) (deletions delta) base;
          r2 = fold (\<lambda>u r. r(upd_key u \<mapsto> upd_to u)) (updates delta) r1;
          r3 = fold (\<lambda>a r. r(add_key a \<mapsto> add_val a)) (additions delta) r2
      in r3)"


section \<open>The class model\<close>

text \<open>
  An \<^verbatim>\<open>xml.etree.ElementTree\<close> element: its tag, its attributes, its text and its
  subelements in document order.  The tag of a parsed element is a string; an element
  that the generator builds takes its tag from a class or attribute name, which is
  \<^verbatim>\<open>None\<close> when the XML attribute \<^verbatim>\<open>name\<close> was missing.
\<close>

datatype element =
  Element (tag: "string option") (attrib: "(string, string) dict")
    (elem_text: "string option") (subelements: "element list")

definition element_get :: "element \<Rightarrow> string \<Rightarrow> string option" where
  \<comment> \<open>\<^verbatim>\<open>e.get(key)\<close>: \<^verbatim>\<open>None\<close> for a missing attribute\<close>
  "element_get e k = map_of (attrib e) k"

definition element_get_default :: "element \<Rightarrow> string \<Rightarrow> string \<Rightarrow> string" where
  \<comment> \<open>\<^verbatim>\<open>e.get(key, default)\<close>\<close>
  "element_get_default e k d = (case map_of (attrib e) k of None \<Rightarrow> d | Some v \<Rightarrow> v)"

definition findall_children :: "element \<Rightarrow> string \<Rightarrow> element list" where
  \<comment> \<open>\<^verbatim>\<open>e.findall("Tag")\<close>: the direct subelements with that tag\<close>
  "findall_children e t = filter (\<lambda>c. tag c = Some t) (subelements e)"

fun descendants :: "element \<Rightarrow> element list" where
  "descendants (Element t a x cs) = concat (map (\<lambda>c. c # descendants c) cs)"

definition findall_descendants :: "element \<Rightarrow> string \<Rightarrow> element list" where
  \<comment> \<open>\<^verbatim>\<open>e.findall(".//Tag")\<close>: the elements below \<open>e\<close> with that tag, in document order\<close>
  "findall_descendants e t = filter (\<lambda>c. tag c = Some t) (descendants e)"

definition append_subelement :: "element \<Rightarrow> element \<Rightarrow> element" where
  \<comment> \<open>\<^verbatim>\<open>root.append(e)\<close> and \<^verbatim>\<open>ET.SubElement(root, ...)\<close>: a new last subelement\<close>
  "append_subelement root_elem e =
     Element (tag root_elem) (attrib root_elem) (elem_text root_elem) (subelements root_elem @ [e])"

definition py_str :: "string option \<Rightarrow> string" where
  \<comment> \<open>\<^verbatim>\<open>str(x)\<close> for a string or \<^verbatim>\<open>None\<close>\<close>
  "py_str x = (case x of None \<Rightarrow> ''None'' | Some s \<Rightarrow> s)"

text \<open>
  \<^verbatim>\<open>Attribute\<close> and \<^verbatim>\<open>ClassInfo\<close>, lines 15--31.  The fields \<^verbatim>\<open>min\<close> and \<^verbatim>\<open>max\<close> are
  \<open>min_bound\<close> and \<open>max_bound\<close> here.  \<^verbatim>\<open>ClassInfo\<close> objects are shared and changed in place
  (a class is in \<^verbatim>\<open>parser.classes\<close> and in the \<^verbatim>\<open>children\<close> of every class that contains
  it), so they live in a heap: the list of the objects made so far, an object's address
  its index.  \<open>children\<close> holds addresses.
\<close>

record Attribute =
  attr_name :: "string option"
  attr_type :: "string option"

record ClassInfo =
  name :: "string option"
  is_root :: bool
  documentation :: string
  attributes :: "Attribute list"
  children :: "nat list"
  min_bound :: string
  max_bound :: string

type_synonym heap = "ClassInfo list"

definition ClassInfo_init :: "string option \<Rightarrow> bool \<Rightarrow> string \<Rightarrow> ClassInfo" where
  "ClassInfo_init n r d =
     \<lparr>name = n, is_root = r, documentation = d, attributes = [], children = [],
      min_bound = ''0'', max_bound = ''0''\<rparr>"

record aggregation =
  source :: "string option"
  target :: "string option"
  sourceMultiplicity :: "string option"
  targetMultiplicity :: "string option"

record ModelParser =
  classes :: "(string option, nat) dict"
  aggregations :: "aggregation list"

subsection \<open>Multiplicities\<close>

text \<open>
  \<^verbatim>\<open>".." in s\<close> and \<^verbatim>\<open>s.split("..")\<close>: the separator is searched from the left, and the
  search goes on behind each occurrence found.
\<close>

fun contains_dotdot :: "string \<Rightarrow> bool" where
  "contains_dotdot (c # d # cs) = ((c = CHR ''.'' \<and> d = CHR ''.'') \<or> contains_dotdot (d # cs))"
| "contains_dotdot cs = False"

fun split_dotdot :: "string \<Rightarrow> string list" where
  "split_dotdot (c # d # cs) =
     (if c = CHR ''.'' \<and> d = CHR ''.'' then [] # split_dotdot cs
      else (case split_dotdot (d # cs) of
              p # ps \<Rightarrow> (c # p) # ps
            | [] \<Rightarrow> [[c]]))"
| "split_dotdot cs = [cs]"

text \<open>
  Lines 79--83: the multiplicity of an edge as a pair.  The tuple assignment
  \<^verbatim>\<open>min_val, max_val = multiplicity.split("..")\<close> raises \<^verbatim>\<open>ValueError\<close> unless the list has
  exactly two items; \<^verbatim>\<open>".." in None\<close> raises \<^verbatim>\<open>TypeError\<close>.
\<close>

definition parse_multiplicity :: "string option \<Rightarrow> error + string \<times> string" where
  "parse_multiplicity multiplicity =
     (case multiplicity of
        None \<Rightarrow> Inl TypeError
      | Some m \<Rightarrow>
          if contains_dotdot m
          then (case split_dotdot m of
                  [min_val, max_val] \<Rightarrow> Inr (min_val, max_val)
                | _ \<Rightarrow> Inl ValueError)
          else Inr (m, m))"

subsection \<open>\<^verbatim>\<open>ModelParser\<close>\<close>

text \<open>Lines 46--58: one \<^verbatim>\<open>Class\<close> element.\<close>

definition parse_attribute :: "heap \<Rightarrow> nat \<Rightarrow> element \<Rightarrow> heap" where
  "parse_attribute h class_info attr_elem =
     h[class_info := (h ! class_info)
        \<lparr>attributes := attributes (h ! class_info) @
           [\<lparr>attr_name = element_get attr_elem ''name'',
             attr_type = element_get attr_elem ''type''\<rparr>]\<rparr>]"

definition parse_class ::
  "element \<Rightarrow> heap \<times> (string option, nat) dict \<Rightarrow> heap \<times> (string option, nat) dict" where
  "parse_class class_elem st =
     (let (h, cs) = st;
          n = element_get class_elem ''name'';
          r = (element_get class_elem ''isRoot'' = Some ''true'');
          d = element_get_default class_elem ''documentation'' [];
          class_info = length h;
          h1 = h @ [ClassInfo_init n r d];
          h2 = fold (\<lambda>attr_elem h'. parse_attribute h' class_info attr_elem)
                 (findall_children class_elem ''Attribute'') h1
      in (h2, dict_setitem cs n class_info))"

text \<open>Lines 61--71: one \<^verbatim>\<open>Aggregation\<close> element.\<close>

definition parse_aggregation :: "element \<Rightarrow> aggregation" where
  "parse_aggregation agg_elem =
     \<lparr>source = element_get agg_elem ''source'',
      target = element_get agg_elem ''target'',
      sourceMultiplicity = element_get agg_elem ''sourceMultiplicity'',
      targetMultiplicity = element_get agg_elem ''targetMultiplicity''\<rparr>"

text \<open>Lines 73--85: one edge, and the loop over all edges.\<close>

definition link_aggregation ::
  "(string option, nat) dict \<Rightarrow> heap \<Rightarrow> aggregation \<Rightarrow> error + heap" where
  "link_aggregation cs h agg =
     (case dict_getitem cs (source agg) of
        Inl e \<Rightarrow> Inl e
      | Inr source_class \<Rightarrow>
         (case dict_getitem cs (target agg) of
            Inl e \<Rightarrow> Inl e
          | Inr target_class \<Rightarrow>
             (let h1 = h[target_class := (h ! target_class)
                          \<lparr>children := children (h ! target_class) @ [source_class]\<rparr>]
              in case parse_multiplicity (sourceMultiplicity agg) of
                   Inl e \<Rightarrow> Inl e
                 | Inr (min_val, max_val) \<Rightarrow>
                     Inr (h1[source_class := (h1 ! source_class)
                              \<lparr>min_bound := min_val, max_bound := max_val\<rparr>]))))"

fun link_loop ::
  "(string option, nat) dict \<Rightarrow> heap \<Rightarrow> aggregation list \<Rightarrow> error + heap" where
  "link_loop cs h [] = Inr h"
| "link_loop cs h (agg # aggs) =
     (case link_aggregation cs h agg of
        Inl e \<Rightarrow> Inl e
      | Inr h' \<Rightarrow> link_loop cs h' aggs)"

text \<open>
  \<^verbatim>\<open>ModelParser.parse_xml\<close>, lines 41--85, from the root element that \<^verbatim>\<open>ET.parse\<close> returns
  (reading the file is not modelled; the variable \<^verbatim>\<open>root\<close> is \<open>root_elem\<close> here), and \<^verbatim>\<open>ModelParser.__init__\<close>, which starts from
  no classes and no aggregations.
\<close>

definition parse_xml :: "heap \<Rightarrow> ModelParser \<Rightarrow> element \<Rightarrow> error + heap \<times> ModelParser" where
  "parse_xml h self root_elem =
     (let (h1, cs) = fold parse_class (findall_descendants root_elem ''Class'') (h, classes self);
          aggs = aggregations self @ map parse_aggregation (findall_descendants root_elem ''Aggregation'')
      in case link_loop cs h1 aggs of
           Inl e \<Rightarrow> Inl e
         | Inr h2 \<Rightarrow> Inr (h2, \<lparr>classes = cs, aggregations = aggs\<rparr>))"

definition ModelParser_init :: "element \<Rightarrow> error + heap \<times> ModelParser" where
  "ModelParser_init root_elem = parse_xml [] \<lparr>classes = [], aggregations = []\<rparr> root_elem"

text \<open>
  \<^verbatim>\<open>ModelParser.get_root_class\<close>, lines 87--88: \<^verbatim>\<open>next\<close> over the generator of the root
  classes, in the order of \<^verbatim>\<open>classes.values()\<close>; \<^verbatim>\<open>StopIteration\<close> when there is none.
\<close>

definition get_root_class :: "heap \<Rightarrow> ModelParser \<Rightarrow> error + nat" where
  "get_root_class h self =
     (case filter (\<lambda>cls. is_root (h ! cls)) (dict_values (classes self)) of
        [] \<Rightarrow> Inl StopIteration
      | cls # _ \<Rightarrow> Inr cls)"

text \<open>
  The addresses that \<^verbatim>\<open>classes\<close> holds are objects of the heap: \<^verbatim>\<open>parse_xml\<close> stores a class
  under its name right after making it.
\<close>

definition classes_valid :: "heap \<Rightarrow> (string option, nat) dict \<Rightarrow> bool" where
  "classes_valid h cs \<longleftrightarrow> (\<forall>a \<in> set (dict_values cs). a < length h)"

text \<open>
  Two notions for the statements below: the object that the class loop makes of a
  \<^verbatim>\<open>Class\<close> element, and the property that every class is stored under its own name.
\<close>

definition declared_class :: "element \<Rightarrow> ClassInfo" where
  "declared_class class_elem =
     \<lparr>name = element_get class_elem ''name'',
      is_root = (element_get class_elem ''isRoot'' = Some ''true''),
      documentation = element_get_default class_elem ''documentation'' [],
      attributes = map (\<lambda>e. \<lparr>attr_name = element_get e ''name'', attr_type = element_get e ''type''\<rparr>)
                     (findall_children class_elem ''Attribute''),
      children = [], min_bound = ''0'', max_bound = ''0''\<rparr>"

definition classes_named :: "heap \<Rightarrow> (string option, nat) dict \<Rightarrow> bool" where
  "classes_named h cs \<longleftrightarrow> (\<forall>(k, a) \<in> set cs. a < length h \<and> name (h ! a) = k)"

definition heap_closed :: "heap \<Rightarrow> bool" where
  \<comment> \<open>every child is an object of the heap: a reference never dangles\<close>
  "heap_closed h \<longleftrightarrow> (\<forall>a < length h. \<forall>c \<in> set (children (h ! a)). c < length h)"

subsection \<open>The generators\<close>

text \<open>
  \<^verbatim>\<open>ConfigXMLGenerator.generate\<close>, lines 93--107.  The function calls itself for every
  child and nothing bounds the depth of the calls, so the model carries fuel: the number
  of nested calls still allowed.  \<open>None\<close> says that the fuel ran out; a call that gets
  \<open>None\<close> for every amount of fuel does not return.
\<close>

fun ConfigXMLGenerator_generate :: "nat \<Rightarrow> heap \<Rightarrow> nat \<Rightarrow> element option" where
  "ConfigXMLGenerator_generate 0 h class_info = None"
| "ConfigXMLGenerator_generate (Suc n) h class_info =
     (let root_elem = Element (name (h ! class_info)) [] None [];
          root1 = fold (\<lambda>attr r.
                    append_subelement r
                      (Element (attr_name attr) [] (Some (py_str (attr_type attr))) []))
                    (attributes (h ! class_info)) root_elem
      in fold (\<lambda>child r.
                 case r of
                   None \<Rightarrow> None
                 | Some r' \<Rightarrow>
                    (case ConfigXMLGenerator_generate n h child of
                       None \<Rightarrow> None
                     | Some child_elem \<Rightarrow> Some (append_subelement r' child_elem)))
              (children (h ! class_info)) (Some root1))"

text \<open>
  Two names for parts of \<^verbatim>\<open>ConfigXMLGenerator.generate\<close>, used to reason about it: the
  element with the attribute fields (lines 95--100) and the loop over the children
  (lines 103--105) with the recursive call as a parameter.  Lemma \<open>generate_Suc\<close> puts the
  function together from them.
\<close>

definition append_children ::
  "(nat \<Rightarrow> element option) \<Rightarrow> nat list \<Rightarrow> element option \<Rightarrow> element option" where
  "append_children g cs r =
     fold (\<lambda>child r.
             case r of
               None \<Rightarrow> None
             | Some r' \<Rightarrow>
                (case g child of
                   None \<Rightarrow> None
                 | Some child_elem \<Rightarrow> Some (append_subelement r' child_elem)))
          cs r"

definition attribute_elements :: "ClassInfo \<Rightarrow> element" where
  "attribute_elements c =
     fold (\<lambda>attr r.
             append_subelement r
               (Element (attr_name attr) [] (Some (py_str (attr_type attr))) []))
          (attributes c) (Element (name c) [] None [])"

text \<open>
  The containment relation of a heap, from a class to each of its children, and the
  precondition of the hierarchical generator: no class that can be reached from
  \<open>class_info\<close> (itself included) contains itself, directly or through other classes.
\<close>

definition containment :: "heap \<Rightarrow> (nat \<times> nat) set" where
  "containment h = {(p, c). p < length h \<and> c \<in> set (children (h ! p))}"

definition acyclic_below :: "heap \<Rightarrow> nat \<Rightarrow> bool" where
  "acyclic_below h class_info \<longleftrightarrow>
     (\<forall>c. (class_info, c) \<in> (containment h)\<^sup>* \<longrightarrow> (c, c) \<notin> (containment h)\<^sup>+)"

text \<open>\<^verbatim>\<open>MetaJSONGenerator.generate\<close>, lines 125--144.\<close>

record parameter =
  p_name :: "string option"
  p_type :: "string option"

record meta_entry =
  m_class :: "string option"
  m_documentation :: string
  m_isRoot :: bool
  m_max :: string
  m_min :: string
  m_parameters :: "parameter list"

definition meta_entry_of :: "heap \<Rightarrow> nat \<Rightarrow> meta_entry" where
  "meta_entry_of h cls =
     (let entry = \<lparr>m_class = name (h ! cls), m_documentation = documentation (h ! cls),
                   m_isRoot = is_root (h ! cls), m_max = max_bound (h ! cls),
                   m_min = min_bound (h ! cls), m_parameters = []\<rparr>;
          entry1 = fold (\<lambda>attr e. e\<lparr>m_parameters := m_parameters e @
                      [\<lparr>p_name = attr_name attr, p_type = attr_type attr\<rparr>]\<rparr>)
                     (attributes (h ! cls)) entry;
          entry2 = fold (\<lambda>child e. e\<lparr>m_parameters := m_parameters e @
                      [\<lparr>p_name = name (h ! child), p_type = Some ''class''\<rparr>]\<rparr>)
                     (children (h ! cls)) entry1
      in entry2)"

definition MetaJSONGenerator_generate :: "heap \<Rightarrow> (string option, nat) dict \<Rightarrow> meta_entry list" where
  "MetaJSONGenerator_generate h cs =
     fold (\<lambda>cls meta. meta @ [meta_entry_of h cls]) (dict_values cs) []"


subsection \<open>Example documents\<close>

text \<open>
  The example of the specification, with one more edge: \<open>A\<close> contains \<open>B\<close> and \<open>C\<close>, and \<open>C\<close>
  contains \<open>B\<close> as well, so \<open>B\<close> is the source of two edges.
\<close>

definition example_model :: element where
  "example_model =
     Element (Some ''Model'') [] None
       [Element (Some ''Class'')
          [(''name'', ''A''), (''isRoot'', ''true''), (''documentation'', ''top'')] None
          [Element (Some ''Attribute'') [(''name'', ''id''), (''type'', ''uint32'')] None []],
        Element (Some ''Class'') [(''name'', ''B''), (''isRoot'', ''false'')] None [],
        Element (Some ''Class'') [(''name'', ''C'')] None [],
        Element (Some ''Aggregation'')
          [(''source'', ''B''), (''target'', ''A''), (''sourceMultiplicity'', ''1''),
           (''targetMultiplicity'', ''1'')] None [],
        Element (Some ''Aggregation'')
          [(''source'', ''C''), (''target'', ''A''), (''sourceMultiplicity'', ''0..*''),
           (''targetMultiplicity'', ''1'')] None [],
        Element (Some ''Aggregation'')
          [(''source'', ''B''), (''target'', ''C''), (''sourceMultiplicity'', ''2..3''),
           (''targetMultiplicity'', ''1'')] None []]"

definition example_declared :: heap where
  \<comment> \<open>the heap after the classes are read, before the edges are linked\<close>
  "example_declared =
     [\<lparr>name = Some ''A'', is_root = True, documentation = ''top'',
       attributes = [\<lparr>attr_name = Some ''id'', attr_type = Some ''uint32''\<rparr>],
       children = [], min_bound = ''0'', max_bound = ''0''\<rparr>,
      \<lparr>name = Some ''B'', is_root = False, documentation = [], attributes = [],
       children = [], min_bound = ''0'', max_bound = ''0''\<rparr>,
      \<lparr>name = Some ''C'', is_root = False, documentation = [], attributes = [],
       children = [], min_bound = ''0'', max_bound = ''0''\<rparr>]"

definition example_heap :: heap where
  "example_heap =
     [\<lparr>name = Some ''A'', is_root = True, documentation = ''top'',
       attributes = [\<lparr>attr_name = Some ''id'', attr_type = Some ''uint32''\<rparr>],
       children = [1, 2], min_bound = ''0'', max_bound = ''0''\<rparr>,
      \<lparr>name = Some ''B'', is_root = False, documentation = [], attributes = [],
       children = [], min_bound = ''2'', max_bound = ''3''\<rparr>,
      \<lparr>name = Some ''C'', is_root = False, documentation = [], attributes = [],
       children = [1], min_bound = ''0'', max_bound = ''*''\<rparr>]"

definition example_parser :: ModelParser where
  "example_parser =
     \<lparr>classes = [(Some ''A'', 0), (Some ''B'', 1), (Some ''C'', 2)],
      aggregations =
        [\<lparr>source = Some ''B'', target = Some ''A'', sourceMultiplicity = Some ''1'',
          targetMultiplicity = Some ''1''\<rparr>,
         \<lparr>source = Some ''C'', target = Some ''A'', sourceMultiplicity = Some ''0..*'',
          targetMultiplicity = Some ''1''\<rparr>,
         \<lparr>source = Some ''B'', target = Some ''C'', sourceMultiplicity = Some ''2..3'',
          targetMultiplicity = Some ''1''\<rparr>]\<rparr>"

text \<open>
  A document whose containment has a cycle, and with two classes flagged as root: \<open>A\<close>
  contains \<open>B\<close> and \<open>B\<close> contains \<open>A\<close>.
\<close>

definition cyclic_model :: element where
  "cyclic_model =
     Element (Some ''Model'') [] None
       [Element (Some ''Class'') [(''name'', ''A''), (''isRoot'', ''true'')] None [],
        Element (Some ''Class'') [(''name'', ''B''), (''isRoot'', ''true'')] None
          [Element (Some ''Attribute'') [(''name'', ''x''), (''type'', ''string'')] None []],
        Element (Some ''Aggregation'')
          [(''source'', ''B''), (''target'', ''A''), (''sourceMultiplicity'', ''1'')] None [],
        Element (Some ''Aggregation'')
          [(''source'', ''A''), (''target'', ''B''), (''sourceMultiplicity'', ''0..1'')] None []]"

definition cyclic_heap :: heap where
  "cyclic_heap =
     [\<lparr>name = Some ''A'', is_root = True, documentation = [], attributes = [],
       children = [1], min_bound = ''0'', max_bound = ''1''\<rparr>,
      \<lparr>name = Some ''B'', is_root = True, documentation = [],
       attributes = [\<lparr>attr_name = Some ''x'', attr_type = Some ''string''\<rparr>],
       children = [0], min_bound = ''1'', max_bound = ''1''\<rparr>]"

definition cyclic_parser :: ModelParser where
  "cyclic_parser =
     \<lparr>classes = [(Some ''A'', 0), (Some ''B'', 1)],
      aggregations =
        [\<lparr>source = Some ''B'', target = Some ''A'', sourceMultiplicity = Some ''1'',
          targetMultiplicity = None\<rparr>,
         \<lparr>source = Some ''A'', target = Some ''B'', sourceMultiplicity = Some ''0..1'',
          targetMultiplicity = None\<rparr>]\<rparr>"

text \<open>A document whose second edge names the class \<open>X\<close>, which is not declared.\<close>

definition dangling_model :: element where
  "dangling_model =
     Element (Some ''Model'') [] None
       [Element (Some ''Class'') [(''name'', ''A''), (''isRoot'', ''true'')] None [],
        Element (Some ''Class'') [(''name'', ''B'')] None [],
        Element (Some ''Aggregation'')
          [(''source'', ''B''), (''target'', ''A''), (''sourceMultiplicity'', ''1'')] None [],
        Element (Some ''Aggregation'')
          [(''source'', ''X''), (''target'', ''A''), (''sourceMultiplicity'', ''1'')] None []]"

section \<open>Facts about dicts, sets and the store\<close>

lemma map_of_dict_setitem: "map_of (dict_setitem d k v) = (map_of d)(k \<mapsto> v)"
  by (induction d) (auto simp: fun_eq_iff)

lemma map_of_dict_pop: "map_of (dict_pop d k) = (map_of d)(k := None)"
  by (induction d) (auto simp: dict_pop_def fun_eq_iff)

lemma set_py_set_keys: "set (py_set (dict_keys d)) = dom (map_of d)"
  by (simp add: py_set_def dict_keys_def dom_map_of_conv_image_fst)

lemma distinct_py_set: "distinct (py_set xs)"
  by (simp add: py_set_def)

lemma iteration_order_set: "iteration_order iter \<Longrightarrow> set (iter ks) = set ks"
  unfolding iteration_order_def by (metis set_mset_mset)

lemma iteration_order_distinct: "iteration_order iter \<Longrightarrow> distinct (iter ks) = distinct ks"
  unfolding iteration_order_def by (metis mset_eq_imp_distinct_iff)

lemma apply_deletions_eq:
  "result < length s \<Longrightarrow>
   apply_deletions s result ks = s[result := fold (\<lambda>k d. dict_pop d k) ks (s ! result)]"
  by (induction ks arbitrary: s) simp_all

lemma apply_updates_eq:
  "result < length s \<Longrightarrow>
   apply_updates s result us =
     s[result := fold (\<lambda>u d. dict_setitem d (upd_key u) (upd_to u)) us (s ! result)]"
  by (induction us arbitrary: s) simp_all

lemma apply_additions_eq:
  "result < length s \<Longrightarrow>
   apply_additions s result as =
     s[result := fold (\<lambda>a d. dict_setitem d (add_key a) (add_val a)) as (s ! result)]"
  by (induction as arbitrary: s) simp_all

lemma generate_in_store_fold:
  "ResPatchedConfigGenerator_generate s config delta =
     (length s, s @ [fold (\<lambda>a d. dict_setitem d (add_key a) (add_val a)) (additions delta)
       (fold (\<lambda>u d. dict_setitem d (upd_key u) (upd_to u)) (updates delta)
         (fold (\<lambda>k d. dict_pop d k) (deletions delta) (s ! config)))])"
  by (simp add: ResPatchedConfigGenerator_generate_def dict_copy_def Let_def
      apply_deletions_eq apply_updates_eq apply_additions_eq)

lemma apply_delta_fold:
  "apply_delta config delta =
     fold (\<lambda>a d. dict_setitem d (add_key a) (add_val a)) (additions delta)
       (fold (\<lambda>u d. dict_setitem d (upd_key u) (upd_to u)) (updates delta)
         (fold (\<lambda>k d. dict_pop d k) (deletions delta) config))"
  by (simp add: apply_delta_def generate_in_store_fold)

lemma generate_in_store:
  "ResPatchedConfigGenerator_generate s config delta =
     (length s, s @ [apply_delta (s ! config) delta])"
  by (simp add: generate_in_store_fold apply_delta_fold)

lemma additions_loop_eq:
  "set ks \<subseteq> dom (map_of p) \<Longrightarrow>
   additions_loop p ks acc =
     Inr (acc @ map (\<lambda>k. \<lparr>add_key = k, add_val = the (map_of p k)\<rparr>) ks)"
  by (induction ks arbitrary: acc) (auto simp: dict_getitem_def)

lemma deletions_loop_eq: "deletions_loop ks acc = acc @ ks"
  by (induction ks arbitrary: acc) simp_all

lemma updates_loop_eq:
  "set ks \<subseteq> dom (map_of c) \<Longrightarrow> set ks \<subseteq> dom (map_of p) \<Longrightarrow>
   updates_loop ne c p ks acc =
     Inr (acc @ map (\<lambda>k. \<lparr>upd_key = k, upd_from = the (map_of c k), upd_to = the (map_of p k)\<rparr>)
                  (filter (\<lambda>k. ne (the (map_of c k)) (the (map_of p k))) ks))"
  by (induction ks arbitrary: acc) (auto simp: dict_getitem_def)

lemma set_set_minus: "set (set_minus a b) = set a - set b"
  by (auto simp: set_minus_def)

lemma set_set_inter: "set (set_inter a b) = set a \<inter> set b"
  by (auto simp: set_inter_def)

lemma distinct_set_minus: "distinct a \<Longrightarrow> distinct (set_minus a b)"
  by (simp add: set_minus_def)

lemma distinct_set_inter: "distinct a \<Longrightarrow> distinct (set_inter a b)"
  by (simp add: set_inter_def)

text \<open>The delta that the generator returns, in closed form.\<close>

lemma generate_delta_eq:
  assumes "iteration_order iter"
  shows "DeltaJSONGenerator_generate iter ne c p =
     Inr \<lparr>additions = map (\<lambda>k. \<lparr>add_key = k, add_val = the (map_of p k)\<rparr>)
                          (iter (set_minus (py_set (dict_keys p)) (py_set (dict_keys c)))),
          deletions = iter (set_minus (py_set (dict_keys c)) (py_set (dict_keys p))),
          updates = map (\<lambda>k. \<lparr>upd_key = k, upd_from = the (map_of c k), upd_to = the (map_of p k)\<rparr>)
                      (filter (\<lambda>k. ne (the (map_of c k)) (the (map_of p k)))
                         (iter (set_inter (py_set (dict_keys c)) (py_set (dict_keys p)))))\<rparr>"
proof -
  have a: "set (iter (set_minus (py_set (dict_keys p)) (py_set (dict_keys c)))) \<subseteq> dom (map_of p)"
    using assms by (auto simp: iteration_order_set set_set_minus set_py_set_keys)
  have u1: "set (iter (set_inter (py_set (dict_keys c)) (py_set (dict_keys p)))) \<subseteq> dom (map_of c)"
    using assms by (auto simp: iteration_order_set set_set_inter set_py_set_keys)
  have u2: "set (iter (set_inter (py_set (dict_keys c)) (py_set (dict_keys p)))) \<subseteq> dom (map_of p)"
    using assms by (auto simp: iteration_order_set set_set_inter set_py_set_keys)
  show ?thesis
    unfolding DeltaJSONGenerator_generate_def Let_def
    by (simp add: additions_loop_eq [OF a] updates_loop_eq [OF u1 u2] deletions_loop_eq)
qed

lemma map_of_fold_pop:
  "map_of (fold (\<lambda>k d. dict_pop d k) ks d) = fold (\<lambda>k r. r(k := None)) ks (map_of d)"
  by (induction ks arbitrary: d) (simp_all add: map_of_dict_pop)

lemma map_of_fold_setitem:
  "map_of (fold (\<lambda>x d. dict_setitem d (f x) (g x)) xs d) =
     fold (\<lambda>x r. r(f x \<mapsto> g x)) xs (map_of d)"
  by (induction xs arbitrary: d) (simp_all add: map_of_dict_setitem)

lemma map_of_apply_delta: "map_of (apply_delta config delta) = apply_spec (map_of config) delta"
  by (simp add: apply_delta_fold apply_spec_def map_of_fold_pop map_of_fold_setitem)

lemma fold_remove_apply:
  "fold (\<lambda>k r. r(k := None)) ks m x = (if x \<in> set ks then None else m x)"
  by (induction ks arbitrary: m) auto

lemma fold_store_notin:
  "x \<notin> f ` set xs \<Longrightarrow> fold (\<lambda>y r. r(f y \<mapsto> g y)) xs m x = m x"
  by (induction xs arbitrary: m) auto

lemma fold_store_in:
  "distinct (map f xs) \<Longrightarrow> y \<in> set xs \<Longrightarrow> fold (\<lambda>y r. r(f y \<mapsto> g y)) xs m (f y) = Some (g y)"
  by (induction xs arbitrary: m) (auto simp: fold_store_notin)

text \<open>What applying the generated delta leaves at each key.\<close>

lemma round_trip_pointwise:
  assumes "iteration_order iter" and g: "DeltaJSONGenerator_generate iter ne base patched = Inr d"
  shows "map_of (apply_delta base d) x =
     (case map_of patched x of
        None \<Rightarrow> None
      | Some b \<Rightarrow>
         (case map_of base x of
            None \<Rightarrow> Some b
          | Some a \<Rightarrow> if ne a b then Some b else Some a))"
proof -
  let ?ck = "py_set (dict_keys base)" and ?pk = "py_set (dict_keys patched)"
  let ?mka = "\<lambda>k. \<lparr>add_key = k, add_val = the (map_of patched k)\<rparr>"
  let ?mku = "\<lambda>k. \<lparr>upd_key = k, upd_from = the (map_of base k), upd_to = the (map_of patched k)\<rparr>"
  let ?as = "iter (set_minus ?pk ?ck)"
  let ?ds = "iter (set_minus ?ck ?pk)"
  let ?us = "filter (\<lambda>k. ne (the (map_of base k)) (the (map_of patched k))) (iter (set_inter ?ck ?pk))"
  let ?d = "\<lparr>additions = map ?mka ?as, deletions = ?ds, updates = map ?mku ?us\<rparr>"
  note io = iteration_order_set [OF assms(1)] iteration_order_distinct [OF assms(1)]
  from g have d: "d = ?d"
    by (simp add: generate_delta_eq [OF assms(1)])
  have sa: "set ?as = dom (map_of patched) - dom (map_of base)"
    by (simp add: io set_set_minus set_py_set_keys)
  have sd: "set ?ds = dom (map_of base) - dom (map_of patched)"
    by (simp add: io set_set_minus set_py_set_keys)
  have su: "set ?us = {k \<in> dom (map_of base) \<inter> dom (map_of patched).
                        ne (the (map_of base k)) (the (map_of patched k))}"
    by (auto simp: io set_set_inter set_py_set_keys)
  have da: "distinct (map add_key (map ?mka ?as))"
    by (simp add: o_def io distinct_set_minus distinct_py_set)
  have du: "distinct (map upd_key (map ?mku ?us))"
    by (simp add: o_def io distinct_set_inter distinct_py_set)
  let ?r1 = "fold (\<lambda>k r. r(k := None)) ?ds (map_of base)"
  let ?r2 = "fold (\<lambda>u r. r(upd_key u \<mapsto> upd_to u)) (map ?mku ?us) ?r1"
  let ?r3 = "fold (\<lambda>a r. r(add_key a \<mapsto> add_val a)) (map ?mka ?as) ?r2"
  have r1: "?r1 x = (if x \<in> set ?ds then None else map_of base x)"
    by (rule fold_remove_apply)
  have r2: "?r2 x = (if x \<in> set ?us then Some (the (map_of patched x)) else ?r1 x)"
  proof (cases "x \<in> set ?us")
    case True
    then have "?mku x \<in> set (map ?mku ?us)" by simp
    from fold_store_in [OF du this, of upd_to ?r1]
    have "?r2 x = Some (the (map_of patched x))" by simp
    with True show ?thesis by (simp only: if_True)
  next
    case False
    then have "x \<notin> upd_key ` set (map ?mku ?us)" by (auto simp: image_iff)
    from fold_store_notin [OF this, of upd_to ?r1]
    have "?r2 x = ?r1 x" .
    with False show ?thesis by (simp only: if_False)
  qed
  have r3: "?r3 x = (if x \<in> set ?as then Some (the (map_of patched x)) else ?r2 x)"
  proof (cases "x \<in> set ?as")
    case True
    then have "?mka x \<in> set (map ?mka ?as)" by simp
    from fold_store_in [OF da this, of add_val ?r2]
    have "?r3 x = Some (the (map_of patched x))" by simp
    with True show ?thesis by (simp only: if_True)
  next
    case False
    then have "x \<notin> add_key ` set (map ?mka ?as)" by (auto simp: image_iff)
    from fold_store_notin [OF this, of add_val ?r2]
    have "?r3 x = ?r2 x" .
    with False show ?thesis by (simp only: if_False)
  qed
  have "?r3 x =
     (case map_of patched x of
        None \<Rightarrow> None
      | Some b \<Rightarrow>
         (case map_of base x of
            None \<Rightarrow> Some b
          | Some a \<Rightarrow> if ne a b then Some b else Some a))"
    unfolding r3 r2 r1 sa sd su by (auto simp: domIff split: option.splits)
  then show ?thesis
    by (simp add: d map_of_apply_delta apply_spec_def)
qed

lemma dict_keys_dom: "set (dict_keys d) = dom (map_of d)"
  by (simp add: dict_keys_def dom_map_of_conv_image_fst)

lemma dict_equalI:
  assumes "\<And>k. map_of a k = None \<longleftrightarrow> map_of b k = None"
    and "\<And>k x y. map_of a k = Some x \<Longrightarrow> map_of b k = Some y \<Longrightarrow> x = y \<or> \<not> ne x y"
  shows "dict_equal ne a b"
proof -
  have "k \<in> dom (map_of a) \<longleftrightarrow> k \<in> dom (map_of b)" for k
    using assms(1) [of k] by (simp add: domIff)
  then have "dom (map_of a) = dom (map_of b)" by blast
  moreover have "(case (map_of a k, map_of b k) of
          (Some x, Some y) \<Rightarrow> x = y \<or> \<not> ne x y | _ \<Rightarrow> False)"
    if "k \<in> dom (map_of a)" for k
  proof -
    from that obtain x where x: "map_of a k = Some x" by auto
    with assms(1) [of k] obtain y where y: "map_of b k = Some y" by (cases "map_of b k") auto
    from assms(2) [OF x y] x y show ?thesis by simp
  qed
  ultimately show ?thesis by (simp add: dict_equal_def dict_keys_dom)
qed

lemma ex_conj_mp: "\<exists>d. A d \<and> B d \<and> (H \<longrightarrow> C d) \<Longrightarrow> H \<Longrightarrow> \<exists>d. A d \<and> B d \<and> C d"
  by blast

text \<open>
  One NaN under the same key of both maps, and \<^verbatim>\<open>1\<close> against \<^verbatim>\<open>true\<close>: the deltas that the
  generator returns.
\<close>

lemma nan_delta:
  "DeltaJSONGenerator_generate (\<lambda>ks. ks) py_ne [(''a'', JNaN 0)] [(''a'', JNaN 0)] =
     Inr \<lparr>additions = [], deletions = [],
          updates = [\<lparr>upd_key = ''a'', upd_from = JNaN 0, upd_to = JNaN 0\<rparr>]\<rparr>"
  by (simp add: DeltaJSONGenerator_generate_def py_set_def dict_keys_def set_minus_def
      set_inter_def dict_getitem_def py_ne_def)

lemma one_true_delta:
  "DeltaJSONGenerator_generate (\<lambda>ks. ks) py_ne [(''b'', JInt 1)] [(''b'', JBool True)] =
     Inr \<lparr>additions = [], deletions = [], updates = []\<rparr>"
  by (simp add: DeltaJSONGenerator_generate_def py_set_def dict_keys_def set_minus_def
      set_inter_def dict_getitem_def py_ne_def)


section \<open>Facts about multiplicities\<close>

lemma split_dotdot_nonempty: "split_dotdot s \<noteq> []"
  by (induction s rule: split_dotdot.induct) (auto split: list.splits)

lemma split_dotdot_no_separator: "\<not> contains_dotdot s \<Longrightarrow> split_dotdot s = [s]"
  by (induction s rule: split_dotdot.induct) auto

lemma contains_dotdot_iff_split: "contains_dotdot s \<longleftrightarrow> 2 \<le> length (split_dotdot s)"
proof (induction s rule: split_dotdot.induct)
  case (1 c d cs)
  show ?case
  proof (cases "c = CHR ''.'' \<and> d = CHR ''.''")
    case True
    then show ?thesis using split_dotdot_nonempty [of cs] by (cases "split_dotdot cs") auto
  next
    case False
    obtain p ps where p: "split_dotdot (d # cs) = p # ps"
      using split_dotdot_nonempty [of "d # cs"] by (cases "split_dotdot (d # cs)") auto
    from False have "contains_dotdot (c # d # cs) = contains_dotdot (d # cs)" by auto
    also have "\<dots> = (2 \<le> length (split_dotdot (d # cs)))" using 1(2) [OF False] .
    also have "\<dots> = (2 \<le> length (split_dotdot (c # d # cs)))" using False p by auto
    finally show ?thesis .
  qed
qed simp_all

lemma contains_dotdot_intro: "contains_dotdot (u @ ''..'' @ v)"
proof (induction u)
  case Nil
  show ?case by simp
next
  case (Cons x u)
  then show ?case by (cases "u @ ''..'' @ v" rule: contains_dotdot.cases) auto
qed

lemma contains_dotdot_elim: "contains_dotdot s \<Longrightarrow> \<exists>u v. s = u @ ''..'' @ v"
proof (induction s rule: contains_dotdot.induct)
  case (1 c d cs)
  from 1(2) consider "c = CHR ''.'' \<and> d = CHR ''.''" | "contains_dotdot (d # cs)" by auto
  then show ?case
  proof cases
    case 1
    then have "c # d # cs = [] @ ''..'' @ cs" by simp
    then show ?thesis by blast
  next
    case 2
    with 1(1) obtain u v where "d # cs = u @ ''..'' @ v" by blast
    then have "c # d # cs = (c # u) @ ''..'' @ v" by simp
    then show ?thesis by blast
  qed
qed simp_all

lemma contains_dotdot_iff: "contains_dotdot s \<longleftrightarrow> (\<exists>u v. s = u @ ''..'' @ v)"
  using contains_dotdot_intro contains_dotdot_elim by blast

lemma split_dotdot_two:
  "split_dotdot s = [a, b] \<Longrightarrow> s = a @ ''..'' @ b \<and> \<not> contains_dotdot b"
proof (induction s arbitrary: a rule: split_dotdot.induct)
  case (1 c d cs)
  show ?case
  proof (cases "c = CHR ''.'' \<and> d = CHR ''.''")
    case True
    with 1(3) have a: "a = []" and s: "split_dotdot cs = [b]" by auto
    from s have n: "\<not> contains_dotdot cs" by (simp add: contains_dotdot_iff_split)
    with s have "b = cs" by (simp add: split_dotdot_no_separator)
    with a n True show ?thesis by simp
  next
    case False
    with 1(3) obtain p where p: "split_dotdot (d # cs) = [p, b]" "a = c # p"
      by (auto split: list.splits)
    from 1(2) [OF False p(1)] p(2) show ?thesis by simp
  qed
qed simp_all



section \<open>Claims about the config delta engine\<close>

text \<open>
  Claim C2, amended.  For every two flat maps, under every iteration order of the key
  sets and for every comparison \<open>ne\<close>, the generator returns a delta (it raises nothing)
  whose additions are exactly the keys of \<open>patched\<close> that \<open>base\<close> lacks, each once and with
  its value from \<open>patched\<close>; whose deletions are exactly the keys of \<open>base\<close> that \<open>patched\<close>
  lacks, each once; whose updates are exactly the keys of both maps whose two values are
  \<^verbatim>\<open>!=\<close>, each once and recorded with the value of \<open>base\<close> and the value of \<open>patched\<close>; and
  a key that both maps hold with values that are not \<^verbatim>\<open>!=\<close> is in none of the three
  buckets.  Where \<^verbatim>\<open>!=\<close> is structural difference this is the claim as written (last
  conjunct).  As written the claim fails on the code, because Python's \<^verbatim>\<open>!=\<close> is not
  structural difference: theorem \<open>diff_buckets_counterexample\<close> has a key with one and the
  same NaN in both maps that is recorded as an update, and a key with \<^verbatim>\<open>1\<close> in one map and
  \<^verbatim>\<open>true\<close> in the other that is not.
\<close>

theorem diff_buckets:
  assumes "iteration_order iter"
  shows "\<exists>d. DeltaJSONGenerator_generate iter ne base patched = Inr d
    \<and> set (additions d) =
        {\<lparr>add_key = k, add_val = v\<rparr> | k v. map_of patched k = Some v \<and> map_of base k = None}
    \<and> distinct (map add_key (additions d))
    \<and> set (deletions d) = dom (map_of base) - dom (map_of patched)
    \<and> distinct (deletions d)
    \<and> set (updates d) =
        {\<lparr>upd_key = k, upd_from = a, upd_to = b\<rparr> | k a b.
           map_of base k = Some a \<and> map_of patched k = Some b \<and> ne a b}
    \<and> distinct (map upd_key (updates d))
    \<and> (\<forall>k a b. map_of base k = Some a \<and> map_of patched k = Some b \<and> \<not> ne a b \<longrightarrow>
          k \<notin> add_key ` set (additions d) \<and> k \<notin> set (deletions d)
          \<and> k \<notin> upd_key ` set (updates d))
    \<and> ((\<forall>a b. ne a b \<longleftrightarrow> a \<noteq> b) \<longrightarrow>
          set (updates d) =
            {\<lparr>upd_key = k, upd_from = a, upd_to = b\<rparr> | k a b.
               map_of base k = Some a \<and> map_of patched k = Some b \<and> a \<noteq> b}
          \<and> (\<forall>k v. map_of base k = Some v \<and> map_of patched k = Some v \<longrightarrow>
                k \<notin> add_key ` set (additions d) \<and> k \<notin> set (deletions d)
                \<and> k \<notin> upd_key ` set (updates d)))"
proof -
  let ?ck = "py_set (dict_keys base)" and ?pk = "py_set (dict_keys patched)"
  let ?d = "\<lparr>additions = map (\<lambda>k. \<lparr>add_key = k, add_val = the (map_of patched k)\<rparr>)
                          (iter (set_minus ?pk ?ck)),
          deletions = iter (set_minus ?ck ?pk),
          updates = map (\<lambda>k. \<lparr>upd_key = k, upd_from = the (map_of base k), upd_to = the (map_of patched k)\<rparr>)
                      (filter (\<lambda>k. ne (the (map_of base k)) (the (map_of patched k)))
                         (iter (set_inter ?ck ?pk)))\<rparr>"
  note io = iteration_order_set [OF assms] iteration_order_distinct [OF assms]
  have g: "DeltaJSONGenerator_generate iter ne base patched = Inr ?d"
    by (rule generate_delta_eq [OF assms])
  have sa: "set (iter (set_minus ?pk ?ck)) = dom (map_of patched) - dom (map_of base)"
    by (simp add: io set_set_minus set_py_set_keys)
  have sd: "set (iter (set_minus ?ck ?pk)) = dom (map_of base) - dom (map_of patched)"
    by (simp add: io set_set_minus set_py_set_keys)
  have su: "set (iter (set_inter ?ck ?pk)) = dom (map_of base) \<inter> dom (map_of patched)"
    by (simp add: io set_set_inter set_py_set_keys)
  have a1: "set (additions ?d) =
        {\<lparr>add_key = k, add_val = v\<rparr> | k v. map_of patched k = Some v \<and> map_of base k = None}"
    by (auto simp: sa image_iff domIff)
  have a2: "distinct (map add_key (additions ?d))"
    by (simp add: o_def io distinct_set_minus distinct_py_set)
  have d1: "set (deletions ?d) = dom (map_of base) - dom (map_of patched)"
    by (simp add: sd)
  have d2: "distinct (deletions ?d)"
    by (simp add: io distinct_set_minus distinct_py_set)
  have u1: "set (updates ?d) =
        {\<lparr>upd_key = k, upd_from = a, upd_to = b\<rparr> | k a b.
           map_of base k = Some a \<and> map_of patched k = Some b \<and> ne a b}"
    by (auto simp: su image_iff domIff)
  have u2: "distinct (map upd_key (updates ?d))"
    by (simp add: o_def io distinct_set_inter distinct_py_set)
  have n: "\<forall>k a b. map_of base k = Some a \<and> map_of patched k = Some b \<and> \<not> ne a b \<longrightarrow>
          k \<notin> add_key ` set (additions ?d) \<and> k \<notin> set (deletions ?d)
          \<and> k \<notin> upd_key ` set (updates ?d)"
    by (auto simp: sa sd su image_iff)
  have s: "(\<forall>a b. ne a b \<longleftrightarrow> a \<noteq> b) \<longrightarrow>
          set (updates ?d) =
            {\<lparr>upd_key = k, upd_from = a, upd_to = b\<rparr> | k a b.
               map_of base k = Some a \<and> map_of patched k = Some b \<and> a \<noteq> b}
          \<and> (\<forall>k v. map_of base k = Some v \<and> map_of patched k = Some v \<longrightarrow>
                k \<notin> add_key ` set (additions ?d) \<and> k \<notin> set (deletions ?d)
                \<and> k \<notin> upd_key ` set (updates ?d))"
  proof (intro impI conjI)
    assume st: "\<forall>a b. ne a b \<longleftrightarrow> a \<noteq> b"
    show "set (updates ?d) =
            {\<lparr>upd_key = k, upd_from = a, upd_to = b\<rparr> | k a b.
               map_of base k = Some a \<and> map_of patched k = Some b \<and> a \<noteq> b}"
      unfolding u1 using st by simp
    from st have "\<not> ne v v" for v by simp
    with n show "\<forall>k v. map_of base k = Some v \<and> map_of patched k = Some v \<longrightarrow>
                k \<notin> add_key ` set (additions ?d) \<and> k \<notin> set (deletions ?d)
                \<and> k \<notin> upd_key ` set (updates ?d)"
      by blast
  qed
  from g a1 a2 d1 d2 u1 u2 n s show ?thesis by (intro exI [of _ ?d] conjI)
qed

theorem diff_buckets_witness:
  "iteration_order (rev :: string list \<Rightarrow> string list) \<and>
   (\<exists>d. DeltaJSONGenerator_generate rev py_ne
          [(''a'', JInt 1), (''b'', JInt 2), (''n'', JInt 1)]
          [(''b'', JInt 3), (''c'', JInt 4), (''n'', JBool True)] = Inr d
    \<and> set (additions d) =
        {\<lparr>add_key = k, add_val = v\<rparr> | k v.
           map_of [(''b'', JInt 3), (''c'', JInt 4), (''n'', JBool True)] k = Some v
           \<and> map_of [(''a'', JInt 1), (''b'', JInt 2), (''n'', JInt 1)] k = None}
    \<and> distinct (map add_key (additions d))
    \<and> set (deletions d) =
        dom (map_of [(''a'', JInt 1), (''b'', JInt 2), (''n'', JInt 1)])
        - dom (map_of [(''b'', JInt 3), (''c'', JInt 4), (''n'', JBool True)])
    \<and> distinct (deletions d)
    \<and> set (updates d) =
        {\<lparr>upd_key = k, upd_from = a, upd_to = b\<rparr> | k a b.
           map_of [(''a'', JInt 1), (''b'', JInt 2), (''n'', JInt 1)] k = Some a
           \<and> map_of [(''b'', JInt 3), (''c'', JInt 4), (''n'', JBool True)] k = Some b
           \<and> py_ne a b}
    \<and> distinct (map upd_key (updates d)))
   \<and> DeltaJSONGenerator_generate rev py_ne
          [(''a'', JInt 1), (''b'', JInt 2), (''n'', JInt 1)]
          [(''b'', JInt 3), (''c'', JInt 4), (''n'', JBool True)] =
       Inr \<lparr>additions = [\<lparr>add_key = ''c'', add_val = JInt 4\<rparr>], deletions = [''a''],
            updates = [\<lparr>upd_key = ''b'', upd_from = JInt 2, upd_to = JInt 3\<rparr>]\<rparr>"
proof -
  let ?B = "[(''a'', JInt 1), (''b'', JInt 2), (''n'', JInt 1)]"
  let ?P = "[(''b'', JInt 3), (''c'', JInt 4), (''n'', JBool True)]"
  have io: "iteration_order (rev :: string list \<Rightarrow> string list)"
    by (simp add: iteration_order_def)
  from diff_buckets [OF io, of py_ne ?B ?P]
  obtain d where d: "DeltaJSONGenerator_generate rev py_ne ?B ?P = Inr d"
    and a1: "set (additions d) =
        {\<lparr>add_key = k, add_val = v\<rparr> | k v. map_of ?P k = Some v \<and> map_of ?B k = None}"
    and a2: "distinct (map add_key (additions d))"
    and d1: "set (deletions d) = dom (map_of ?B) - dom (map_of ?P)"
    and d2: "distinct (deletions d)"
    and u1: "set (updates d) =
        {\<lparr>upd_key = k, upd_from = a, upd_to = b\<rparr> | k a b.
           map_of ?B k = Some a \<and> map_of ?P k = Some b \<and> py_ne a b}"
    and u2: "distinct (map upd_key (updates d))"
    by (elim exE conjE)
  from d a1 a2 d1 d2 u1 u2 have e: "\<exists>d. DeltaJSONGenerator_generate rev py_ne ?B ?P = Inr d
    \<and> set (additions d) =
        {\<lparr>add_key = k, add_val = v\<rparr> | k v. map_of ?P k = Some v \<and> map_of ?B k = None}
    \<and> distinct (map add_key (additions d))
    \<and> set (deletions d) = dom (map_of ?B) - dom (map_of ?P)
    \<and> distinct (deletions d)
    \<and> set (updates d) =
        {\<lparr>upd_key = k, upd_from = a, upd_to = b\<rparr> | k a b.
           map_of ?B k = Some a \<and> map_of ?P k = Some b \<and> py_ne a b}
    \<and> distinct (map upd_key (updates d))"
    by (intro exI [of _ d] conjI)
  have g: "DeltaJSONGenerator_generate rev py_ne ?B ?P =
       Inr \<lparr>additions = [\<lparr>add_key = ''c'', add_val = JInt 4\<rparr>], deletions = [''a''],
            updates = [\<lparr>upd_key = ''b'', upd_from = JInt 2, upd_to = JInt 3\<rparr>]\<rparr>"
    by (simp add: DeltaJSONGenerator_generate_def py_set_def dict_keys_def set_minus_def
        set_inter_def dict_getitem_def py_ne_def)
  from io e g show ?thesis by (intro conjI)
qed

theorem diff_buckets_counterexample:
  "map_of [(''a'', JNaN 0)] ''a'' = Some (JNaN 0)
   \<and> (\<exists>d. DeltaJSONGenerator_generate (\<lambda>ks. ks) py_ne [(''a'', JNaN 0)] [(''a'', JNaN 0)] = Inr d
         \<and> ''a'' \<in> upd_key ` set (updates d))
   \<and> map_of [(''b'', JInt 1)] ''b'' = Some (JInt 1)
   \<and> map_of [(''b'', JBool True)] ''b'' = Some (JBool True)
   \<and> JInt 1 \<noteq> JBool True
   \<and> (\<exists>d. DeltaJSONGenerator_generate (\<lambda>ks. ks) py_ne [(''b'', JInt 1)] [(''b'', JBool True)] = Inr d
         \<and> updates d = [])"
  by (simp add: nan_delta one_true_delta)

text \<open>
  Claim C1.  The round trip: for every two flat maps, under every iteration order and for
  every comparison \<open>ne\<close>, the generator returns a delta, and the dict obtained by applying
  that delta to \<open>base\<close> equals \<open>patched\<close> as Python compares dicts: the same keys, and at
  each key the same value or values that are not \<^verbatim>\<open>!=\<close>.  Where value equality is
  structural, the two dicts are the same map.
\<close>

theorem round_trip:
  assumes "iteration_order iter"
  shows "\<exists>d. DeltaJSONGenerator_generate iter ne base patched = Inr d
           \<and> dict_equal ne (apply_delta base d) patched
           \<and> ((\<forall>a b. ne a b \<longleftrightarrow> a \<noteq> b) \<longrightarrow>
                 map_of (apply_delta base d) = map_of patched)"
proof -
  from generate_delta_eq [OF assms, of ne base patched]
  obtain d where g: "DeltaJSONGenerator_generate iter ne base patched = Inr d" by blast
  note p = round_trip_pointwise [OF assms g]
  have e: "dict_equal ne (apply_delta base d) patched"
  proof (rule dict_equalI)
    fix k show "map_of (apply_delta base d) k = None \<longleftrightarrow> map_of patched k = None"
      unfolding p by (simp split: option.splits)
  next
    fix k x y assume "map_of (apply_delta base d) k = Some x" and "map_of patched k = Some y"
    then show "x = y \<or> \<not> ne x y"
      unfolding p by (auto split: option.splits if_splits)
  qed
  have s: "map_of (apply_delta base d) = map_of patched" if "\<forall>a b. ne a b \<longleftrightarrow> a \<noteq> b"
  proof
    fix x show "map_of (apply_delta base d) x = map_of patched x"
      unfolding p using that by (simp split: option.splits)
  qed
  from g e s show ?thesis by blast
qed

theorem round_trip_witness:
  "iteration_order (rev :: string list \<Rightarrow> string list) \<and>
   (\<exists>d. DeltaJSONGenerator_generate rev py_ne
          [(''a'', JInt 1), (''b'', JObject [(''x'', JArray [JFloat (1 / 2), JNull])]),
           (''n'', JInt 1), (''q'', JNaN 0)]
          [(''b'', JObject [(''x'', JArray [JInt 2])]), (''c'', JString ''new''),
           (''n'', JBool True), (''q'', JNaN 0)]
        = Inr d
      \<and> dict_equal py_ne
           (apply_delta
              [(''a'', JInt 1), (''b'', JObject [(''x'', JArray [JFloat (1 / 2), JNull])]),
               (''n'', JInt 1), (''q'', JNaN 0)] d)
           [(''b'', JObject [(''x'', JArray [JInt 2])]), (''c'', JString ''new''),
            (''n'', JBool True), (''q'', JNaN 0)])
   \<and> (\<exists>d. DeltaJSONGenerator_generate rev (\<lambda>a b. a \<noteq> b)
          [(''a'', 1::int), (''b'', 2)] [(''b'', 3), (''c'', 4)] = Inr d
      \<and> dict_equal (\<lambda>a b. a \<noteq> b) (apply_delta [(''a'', 1::int), (''b'', 2)] d) [(''b'', 3), (''c'', 4)]
      \<and> map_of (apply_delta [(''a'', 1::int), (''b'', 2)] d) = map_of [(''b'', 3), (''c'', 4)])"
proof -
  let ?B = "[(''a'', JInt 1), (''b'', JObject [(''x'', JArray [JFloat (1 / 2), JNull])]),
           (''n'', JInt 1), (''q'', JNaN 0)]"
  let ?P = "[(''b'', JObject [(''x'', JArray [JInt 2])]), (''c'', JString ''new''),
           (''n'', JBool True), (''q'', JNaN 0)]"
  have io: "iteration_order (rev :: string list \<Rightarrow> string list)"
    by (simp add: iteration_order_def)
  from round_trip [OF io, of py_ne ?B ?P]
  obtain d where d: "DeltaJSONGenerator_generate rev py_ne ?B ?P = Inr d"
    and e: "dict_equal py_ne (apply_delta ?B d) ?P"
    by (elim exE conjE)
  from d e have 1: "\<exists>d. DeltaJSONGenerator_generate rev py_ne ?B ?P = Inr d
      \<and> dict_equal py_ne (apply_delta ?B d) ?P"
    by (intro exI [of _ d] conjI)
  have s: "\<forall>a b::int. (a \<noteq> b) \<longleftrightarrow> a \<noteq> b" by simp
  from round_trip [OF io, of "\<lambda>a b. a \<noteq> b" "[(''a'', 1::int), (''b'', 2)]" "[(''b'', 3), (''c'', 4)]"] s
  have 2: "\<exists>d. DeltaJSONGenerator_generate rev (\<lambda>a b. a \<noteq> b)
          [(''a'', 1::int), (''b'', 2)] [(''b'', 3), (''c'', 4)] = Inr d
      \<and> dict_equal (\<lambda>a b. a \<noteq> b) (apply_delta [(''a'', 1::int), (''b'', 2)] d) [(''b'', 3), (''c'', 4)]
      \<and> map_of (apply_delta [(''a'', 1::int), (''b'', 2)] d) = map_of [(''b'', 3), (''c'', 4)]"
    by (rule ex_conj_mp)
  from io 1 2 show ?thesis by (intro conjI)
qed

text \<open>
  Claim C3.  For every store, every dict \<open>config\<close> of it and every delta, consistent with
  \<open>config\<close> or not, the call returns (it has no error result) a new object \<open>result\<close> that
  holds the map described by \<open>apply_spec\<close>: the base without the deleted keys, then with
  every update stored, then with every addition stored, in this order.  Every object
  that existed before the call, \<open>config\<close> included, is unchanged.
\<close>

theorem apply_is_spec:
  assumes "config < length s"
    and "ResPatchedConfigGenerator_generate s config delta = (result, s')"
  shows "map_of (s' ! result) = apply_spec (map_of (s ! config)) delta
       \<and> result = length s \<and> length s' = Suc (length s)
       \<and> (\<forall>a < length s. s' ! a = s ! a)"
  using assms by (auto simp: generate_in_store map_of_apply_delta nth_append)

theorem apply_is_spec_witness:
  "(0::nat) < length [[(''a'', 1::int), (''b'', 2)]] \<and>
   ResPatchedConfigGenerator_generate [[(''a'', 1::int), (''b'', 2)]] 0
     \<lparr>additions = [\<lparr>add_key = ''a'', add_val = 30\<rparr>, \<lparr>add_key = ''c'', add_val = 4\<rparr>],
      deletions = [''a'', ''zz''],
      updates = [\<lparr>upd_key = ''a'', upd_from = 1, upd_to = 20\<rparr>,
                 \<lparr>upd_key = ''q'', upd_from = 0, upd_to = 7\<rparr>]\<rparr>
     = (1, [[(''a'', 1), (''b'', 2)], [(''b'', 2), (''a'', 30), (''q'', 7), (''c'', 4)]]) \<and>
   map_of ([[(''a'', 1), (''b'', 2)], [(''b'', 2), (''a'', 30), (''q'', 7), (''c'', 4)]] ! 1) =
     apply_spec (map_of ([[(''a'', 1::int), (''b'', 2)]] ! 0))
       \<lparr>additions = [\<lparr>add_key = ''a'', add_val = 30\<rparr>, \<lparr>add_key = ''c'', add_val = 4\<rparr>],
        deletions = [''a'', ''zz''],
        updates = [\<lparr>upd_key = ''a'', upd_from = 1, upd_to = 20\<rparr>,
                   \<lparr>upd_key = ''q'', upd_from = 0, upd_to = 7\<rparr>]\<rparr> \<and>
   [[(''a'', 1), (''b'', 2)], [(''b'', 2), (''a'', 30), (''q'', 7), (''c'', 4)]] ! 0 =
     [(''a'', 1::int), (''b'', 2)]"
proof -
  let ?s = "[[(''a'', 1::int), (''b'', 2)]]"
  let ?d = "\<lparr>additions = [\<lparr>add_key = ''a'', add_val = 30::int\<rparr>, \<lparr>add_key = ''c'', add_val = 4\<rparr>],
      deletions = [''a'', ''zz''],
      updates = [\<lparr>upd_key = ''a'', upd_from = 1, upd_to = 20\<rparr>,
                 \<lparr>upd_key = ''q'', upd_from = 0, upd_to = 7\<rparr>]\<rparr>"
  have l: "(0::nat) < length ?s" by simp
  have g: "ResPatchedConfigGenerator_generate ?s 0 ?d
     = (1, [[(''a'', 1), (''b'', 2)], [(''b'', 2), (''a'', 30), (''q'', 7), (''c'', 4)]])"
    by (simp add: ResPatchedConfigGenerator_generate_def dict_copy_def dict_pop_def)
  note t = apply_is_spec [OF l g]
  from t have t1: "map_of ([[(''a'', 1), (''b'', 2)], [(''b'', 2), (''a'', 30), (''q'', 7), (''c'', 4)]] ! 1) =
     apply_spec (map_of (?s ! 0)) ?d" by (rule conjunct1)
  have t2: "[[(''a'', 1), (''b'', 2)], [(''b'', 2), (''a'', 30), (''q'', 7), (''c'', 4)]] ! 0 =
     [(''a'', 1::int), (''b'', 2)]" by simp
  from l g t1 t2 show ?thesis by (intro conjI)
qed

text \<open>
  Claim C10, amended.  Applying the empty delta returns a dict with the same items in the
  same order.  Under every iteration order and for every comparison \<open>ne\<close>, the delta
  between a map and itself has no additions and no deletions, and applying it gives the
  map back; it is the empty delta when no value of the map is \<^verbatim>\<open>!=\<close> to itself.  As
  written the claim makes \<open>diff(m, m)\<close> the empty delta for every map; a value NaN is
  \<^verbatim>\<open>!=\<close> to itself and is recorded as an update, which theorem
  \<open>empty_delta_counterexample\<close> shows.
\<close>

theorem empty_delta_identity:
  "apply_delta m \<lparr>additions = [], deletions = [], updates = []\<rparr> = m
   \<and> (iteration_order iter \<longrightarrow>
        (\<exists>d. DeltaJSONGenerator_generate iter ne m m = Inr d
           \<and> additions d = [] \<and> deletions d = []
           \<and> map_of (apply_delta m d) = map_of m
           \<and> ((\<forall>k v. map_of m k = Some v \<longrightarrow> \<not> ne v v) \<longrightarrow>
                 d = \<lparr>additions = [], deletions = [], updates = []\<rparr> \<and> apply_delta m d = m)))"
proof -
  have 1: "apply_delta m \<lparr>additions = [], deletions = [], updates = []\<rparr> = m"
    by (simp add: apply_delta_fold)
  have 2: "\<exists>d. DeltaJSONGenerator_generate iter ne m m = Inr d
           \<and> additions d = [] \<and> deletions d = []
           \<and> map_of (apply_delta m d) = map_of m
           \<and> ((\<forall>k v. map_of m k = Some v \<longrightarrow> \<not> ne v v) \<longrightarrow>
                 d = \<lparr>additions = [], deletions = [], updates = []\<rparr> \<and> apply_delta m d = m)"
    if io: "iteration_order iter"
  proof -
    let ?ks = "py_set (dict_keys m)"
    let ?us = "filter (\<lambda>k. ne (the (map_of m k)) (the (map_of m k))) (iter (set_inter ?ks ?ks))"
    let ?d = "\<lparr>additions = [], deletions = [],
               updates = map (\<lambda>k. \<lparr>upd_key = k, upd_from = the (map_of m k),
                                    upd_to = the (map_of m k)\<rparr>) ?us\<rparr>"
    have e: "set_minus ?ks ?ks = []"
      by (simp add: set_minus_def)
    have i: "iter [] = []"
      using iteration_order_set [OF io, of "[]"] by simp
    have g: "DeltaJSONGenerator_generate iter ne m m = Inr ?d"
      by (simp add: generate_delta_eq [OF io] e i)
    have p: "map_of (apply_delta m ?d) = map_of m"
    proof
      fix x show "map_of (apply_delta m ?d) x = map_of m x"
        unfolding round_trip_pointwise [OF io g] by (simp split: option.splits)
    qed
    have n: "(\<forall>k v. map_of m k = Some v \<longrightarrow> \<not> ne v v) \<longrightarrow>
             ?d = \<lparr>additions = [], deletions = [], updates = []\<rparr> \<and> apply_delta m ?d = m"
    proof
      assume r: "\<forall>k v. map_of m k = Some v \<longrightarrow> \<not> ne v v"
      have "\<not> ne (the (map_of m k)) (the (map_of m k))"
        if "k \<in> set (iter (set_inter ?ks ?ks))" for k
      proof -
        from that have "k \<in> dom (map_of m)"
          by (simp add: iteration_order_set [OF io] set_set_inter set_py_set_keys)
        then obtain v where "map_of m k = Some v" by auto
        with r show ?thesis by auto
      qed
      then have "?us = []" by (simp add: filter_empty_conv)
      then show "?d = \<lparr>additions = [], deletions = [], updates = []\<rparr> \<and> apply_delta m ?d = m"
        by (simp add: apply_delta_fold)
    qed
    have a0: "additions ?d = []" and d0: "deletions ?d = []" by simp_all
    from g a0 d0 p n show ?thesis by (intro exI [of _ ?d] conjI)
  qed
  then have 3: "iteration_order iter \<longrightarrow>
        (\<exists>d. DeltaJSONGenerator_generate iter ne m m = Inr d
           \<and> additions d = [] \<and> deletions d = []
           \<and> map_of (apply_delta m d) = map_of m
           \<and> ((\<forall>k v. map_of m k = Some v \<longrightarrow> \<not> ne v v) \<longrightarrow>
                 d = \<lparr>additions = [], deletions = [], updates = []\<rparr> \<and> apply_delta m d = m))"
    by (rule impI)
  from 1 3 show ?thesis by (rule conjI)
qed

theorem empty_delta_identity_witness:
  "iteration_order (rev :: string list \<Rightarrow> string list)
   \<and> \<not> py_ne (JInt 1) (JInt 1) \<and> \<not> py_ne (JArray [JNull, JNaN 0]) (JArray [JNull, JNaN 0])
   \<and> apply_delta [(''a'', JInt 1), (''b'', JArray [JNull, JNaN 0])]
        \<lparr>additions = [], deletions = [], updates = []\<rparr> =
       [(''a'', JInt 1), (''b'', JArray [JNull, JNaN 0])]
   \<and> (\<exists>d. DeltaJSONGenerator_generate rev py_ne [(''a'', JInt 1), (''b'', JArray [JNull, JNaN 0])]
          [(''a'', JInt 1), (''b'', JArray [JNull, JNaN 0])] = Inr d
      \<and> d = \<lparr>additions = [], deletions = [], updates = []\<rparr>
      \<and> apply_delta [(''a'', JInt 1), (''b'', JArray [JNull, JNaN 0])] d =
          [(''a'', JInt 1), (''b'', JArray [JNull, JNaN 0])])"
proof -
  let ?M = "[(''a'', JInt 1), (''b'', JArray [JNull, JNaN 0])]"
  have io: "iteration_order (rev :: string list \<Rightarrow> string list)"
    by (simp add: iteration_order_def)
  have n1: "\<not> py_ne (JInt 1) (JInt 1)" and n2: "\<not> py_ne (JArray [JNull, JNaN 0]) (JArray [JNull, JNaN 0])"
    by (simp_all add: py_ne_def)
  have h: "\<forall>k v. map_of ?M k = Some v \<longrightarrow> \<not> py_ne v v"
    using n1 n2 by (auto split: if_splits)
  note t = empty_delta_identity [of ?M rev py_ne]
  from t have t1: "apply_delta ?M \<lparr>additions = [], deletions = [], updates = []\<rparr> = ?M"
    by (rule conjunct1)
  from t [THEN conjunct2, THEN mp, OF io]
  obtain d where d: "DeltaJSONGenerator_generate rev py_ne ?M ?M = Inr d"
    and i: "(\<forall>k v. map_of ?M k = Some v \<longrightarrow> \<not> py_ne v v) \<longrightarrow>
              d = \<lparr>additions = [], deletions = [], updates = []\<rparr> \<and> apply_delta ?M d = ?M"
    by (elim exE conjE)
  from i h have c: "d = \<lparr>additions = [], deletions = [], updates = []\<rparr> \<and> apply_delta ?M d = ?M"
    by (rule mp)
  from c have de: "d = \<lparr>additions = [], deletions = [], updates = []\<rparr>" by (rule conjunct1)
  from c have da: "apply_delta ?M d = ?M" by (rule conjunct2)
  from d de da have t2: "\<exists>d. DeltaJSONGenerator_generate rev py_ne ?M ?M = Inr d
      \<and> d = \<lparr>additions = [], deletions = [], updates = []\<rparr> \<and> apply_delta ?M d = ?M"
    by (intro exI [of _ d] conjI)
  from io n1 n2 t1 t2 show ?thesis by (intro conjI)
qed

theorem empty_delta_counterexample:
  "DeltaJSONGenerator_generate (\<lambda>ks. ks) py_ne [(''a'', JNaN 0)] [(''a'', JNaN 0)] \<noteq>
     Inr \<lparr>additions = [], deletions = [], updates = []\<rparr>"
  by (simp add: nan_delta)


section \<open>Facts about the class model\<close>

text \<open>What one edge does to the heap, when its two lookups and its multiplicity succeed.\<close>

lemma link_aggregation_eq:
  assumes "map_of cs (source agg) = Some s" and "map_of cs (target agg) = Some t"
    and "parse_multiplicity (sourceMultiplicity agg) = Inr (lo, hi)"
  shows "link_aggregation cs h agg =
     Inr ((h[t := (h ! t)\<lparr>children := children (h ! t) @ [s]\<rparr>])
            [s := ((h[t := (h ! t)\<lparr>children := children (h ! t) @ [s]\<rparr>]) ! s)
                    \<lparr>min_bound := lo, max_bound := hi\<rparr>])"
  using assms by (simp add: link_aggregation_def dict_getitem_def Let_def)

lemma link_aggregation_Inr:
  assumes "link_aggregation cs h agg = Inr h1"
  obtains s t lo hi where "map_of cs (source agg) = Some s" and "map_of cs (target agg) = Some t"
    and "parse_multiplicity (sourceMultiplicity agg) = Inr (lo, hi)"
  using assms
  by (auto simp: link_aggregation_def dict_getitem_def Let_def split: option.splits sum.splits)

lemma link_step_facts:
  fixes lo hi :: string
  assumes s: "s < length h" and t: "t < length h"
  defines "h1 \<equiv> (h[t := (h ! t)\<lparr>children := children (h ! t) @ [s]\<rparr>])
            [s := ((h[t := (h ! t)\<lparr>children := children (h ! t) @ [s]\<rparr>]) ! s)
                    \<lparr>min_bound := lo, max_bound := hi\<rparr>]"
  shows "length h1 = length h"
    and "children (h1 ! a) = (if a = t then children (h ! a) @ [s] else children (h ! a))"
    and "min_bound (h1 ! a) = (if a = s then lo else min_bound (h ! a))"
    and "max_bound (h1 ! a) = (if a = s then hi else max_bound (h ! a))"
    and "name (h1 ! a) = name (h ! a)"
    and "is_root (h1 ! a) = is_root (h ! a)"
    and "documentation (h1 ! a) = documentation (h ! a)"
    and "attributes (h1 ! a) = attributes (h ! a)"
  using s t unfolding h1_def by (auto simp: nth_list_update)

lemma dict_value_valid:
  "\<forall>a \<in> set (dict_values cs). a < length h \<Longrightarrow> map_of cs k = Some a \<Longrightarrow> a < length (h::heap)"
  by (force simp: dict_values_def dest!: map_of_SomeD)

lemma link_aggregation_length:
  assumes "link_aggregation cs h agg = Inr h1"
  shows "length h1 = length h"
  using assms
  by (auto simp: link_aggregation_def dict_getitem_def Let_def split: option.splits sum.splits)

lemma link_loop_effect:
  assumes "link_loop cs h aggs = Inr h'" and "\<forall>a \<in> set (dict_values cs). a < length h"
  shows "length h' = length h
    \<and> children (h' ! a) = children (h ! a) @
         map (\<lambda>g. the (map_of cs (source g))) (filter (\<lambda>g. map_of cs (target g) = Some a) aggs)
    \<and> (let gs = filter (\<lambda>g. map_of cs (source g) = Some a) aggs
        in if gs = []
           then min_bound (h' ! a) = min_bound (h ! a) \<and> max_bound (h' ! a) = max_bound (h ! a)
           else parse_multiplicity (sourceMultiplicity (last gs)) =
                  Inr (min_bound (h' ! a), max_bound (h' ! a)))
    \<and> name (h' ! a) = name (h ! a) \<and> is_root (h' ! a) = is_root (h ! a)
    \<and> documentation (h' ! a) = documentation (h ! a) \<and> attributes (h' ! a) = attributes (h ! a)"
  using assms
proof (induction aggs arbitrary: h)
  case Nil
  then show ?case by simp
next
  case (Cons g gs)
  from Cons.prems(1) obtain h1 where g: "link_aggregation cs h g = Inr h1"
    and l: "link_loop cs h1 gs = Inr h'"
    by (auto split: sum.splits)
  from g obtain s t lo hi where s: "map_of cs (source g) = Some s"
    and t: "map_of cs (target g) = Some t"
    and m: "parse_multiplicity (sourceMultiplicity g) = Inr (lo, hi)"
    by (rule link_aggregation_Inr)
  have sl: "s < length h" and tl: "t < length h"
    using Cons.prems(2) s t by (auto intro: dict_value_valid)
  from g have h1: "h1 = (h[t := (h ! t)\<lparr>children := children (h ! t) @ [s]\<rparr>])
            [s := ((h[t := (h ! t)\<lparr>children := children (h ! t) @ [s]\<rparr>]) ! s)
                    \<lparr>min_bound := lo, max_bound := hi\<rparr>]"
    by (simp add: link_aggregation_eq [OF s t m])
  have f: "length h1 = length h"
    "children (h1 ! a) = (if a = t then children (h ! a) @ [s] else children (h ! a))"
    "min_bound (h1 ! a) = (if a = s then lo else min_bound (h ! a))"
    "max_bound (h1 ! a) = (if a = s then hi else max_bound (h ! a))"
    "name (h1 ! a) = name (h ! a)"
    "is_root (h1 ! a) = is_root (h ! a)"
    "documentation (h1 ! a) = documentation (h ! a)"
    "attributes (h1 ! a) = attributes (h ! a)"
    unfolding h1 by (rule link_step_facts [OF sl tl])+
  from f(1) Cons.prems(2) have v1: "\<forall>a \<in> set (dict_values cs). a < length h1" by simp
  note ih = Cons.IH [OF l v1]
  from ih f(1) have c1: "length h' = length h" by simp
  from ih have "children (h' ! a) = children (h1 ! a) @
         map (\<lambda>g. the (map_of cs (source g))) (filter (\<lambda>g. map_of cs (target g) = Some a) gs)"
    by simp
  then have c2: "children (h' ! a) = children (h ! a) @
         map (\<lambda>g. the (map_of cs (source g))) (filter (\<lambda>g. map_of cs (target g) = Some a) (g # gs))"
    using s t by (auto simp: f(2))
  from ih have i3: "(let gs = filter (\<lambda>g. map_of cs (source g) = Some a) gs
        in if gs = []
           then min_bound (h' ! a) = min_bound (h1 ! a) \<and> max_bound (h' ! a) = max_bound (h1 ! a)
           else parse_multiplicity (sourceMultiplicity (last gs)) =
                  Inr (min_bound (h' ! a), max_bound (h' ! a)))"
    by simp
  have c3: "(let gs = filter (\<lambda>g. map_of cs (source g) = Some a) (g # gs)
        in if gs = []
           then min_bound (h' ! a) = min_bound (h ! a) \<and> max_bound (h' ! a) = max_bound (h ! a)
           else parse_multiplicity (sourceMultiplicity (last gs)) =
                  Inr (min_bound (h' ! a), max_bound (h' ! a)))"
    using i3 s m by (auto simp: Let_def f(3,4) split: if_splits)
  from ih have c4: "name (h' ! a) = name (h ! a) \<and> is_root (h' ! a) = is_root (h ! a)
    \<and> documentation (h' ! a) = documentation (h ! a) \<and> attributes (h' ! a) = attributes (h ! a)"
    by (simp add: f(5-8))
  from c1 c2 c3 c4 show ?case by (intro conjI) simp_all
qed

text \<open>The class phase of \<^verbatim>\<open>parse_xml\<close>.\<close>

lemma fold_parse_attribute:
  "ci < length h \<Longrightarrow>
   fold (\<lambda>attr_elem h'. parse_attribute h' ci attr_elem) es h =
     h[ci := (h ! ci)\<lparr>attributes := attributes (h ! ci) @
        map (\<lambda>e. \<lparr>attr_name = element_get e ''name'', attr_type = element_get e ''type''\<rparr>) es\<rparr>]"
proof (induction es arbitrary: h)
  case Nil
  then show ?case by simp
next
  case (Cons e es)
  then show ?case by (simp add: parse_attribute_def)
qed

lemma parse_class_eq:
  "parse_class class_elem (h, cs) =
     (h @ [declared_class class_elem], dict_setitem cs (element_get class_elem ''name'') (length h))"
  by (simp add: parse_class_def Let_def fold_parse_attribute ClassInfo_init_def declared_class_def)

lemma dict_keys_setitem: "set (dict_keys (dict_setitem d k v)) = insert k (set (dict_keys d))"
  by (simp add: dict_keys_def dom_map_of_conv_image_fst [symmetric] map_of_dict_setitem)

lemma distinct_keys_setitem: "distinct (dict_keys d) \<Longrightarrow> distinct (dict_keys (dict_setitem d k v))"
proof (induction d)
  case Nil
  then show ?case by (simp add: dict_keys_def)
next
  case (Cons p d)
  then have "fst p \<notin> set (dict_keys d)" "distinct (dict_keys d)" by (simp_all add: dict_keys_def)
  with Cons.IH show ?case
    using dict_keys_setitem [of d k v]
    by (cases p) (auto simp: dict_keys_def)
qed

lemma set_dict_setitem: "set (dict_setitem d k v) \<subseteq> insert (k, v) (set d)"
  by (induction d) (auto split: if_splits)

lemma classes_named_parse_class:
  assumes "classes_named h cs" and "parse_class e (h, cs) = (h', cs')"
  shows "classes_named h' cs'"
proof -
  from assms(2) have h': "h' = h @ [declared_class e]"
    and cs': "cs' = dict_setitem cs (element_get e ''name'') (length h)"
    by (simp_all add: parse_class_eq)
  show ?thesis
    unfolding classes_named_def
  proof (clarify)
    fix k a assume "(k, a) \<in> set cs'"
    with set_dict_setitem [of cs "element_get e ''name''" "length h"] cs'
    consider "(k, a) = (element_get e ''name'', length h)" | "(k, a) \<in> set cs" by auto
    then show "a < length h' \<and> name (h' ! a) = k"
    proof cases
      case 1
      then show ?thesis by (simp add: h' declared_class_def)
    next
      case 2
      with assms(1) have "a < length h" "name (h ! a) = k" by (auto simp: classes_named_def)
      then show ?thesis by (simp add: h' nth_append)
    qed
  qed
qed

lemma fold_parse_class_heap:
  "fold parse_class es (h, cs) = (h', cs') \<Longrightarrow> h' = h @ map declared_class es"
proof (induction es arbitrary: h cs)
  case Nil
  then show ?case by simp
next
  case (Cons e es)
  from Cons.prems have "fold parse_class es
      (h @ [declared_class e], dict_setitem cs (element_get e ''name'') (length h)) = (h', cs')"
    by (simp add: parse_class_eq)
  from Cons.IH [OF this] show ?case by simp
qed

lemma fold_parse_class_keys:
  "fold parse_class es (h, cs) = (h', cs') \<Longrightarrow>
   set (dict_keys cs') = set (dict_keys cs) \<union> (\<lambda>e. element_get e ''name'') ` set es"
proof (induction es arbitrary: h cs)
  case Nil
  then show ?case by simp
next
  case (Cons e es)
  from Cons.prems have "fold parse_class es
      (h @ [declared_class e], dict_setitem cs (element_get e ''name'') (length h)) = (h', cs')"
    by (simp add: parse_class_eq)
  from Cons.IH [OF this] show ?case by (auto simp: dict_keys_setitem)
qed

lemma fold_parse_class_distinct:
  "fold parse_class es (h, cs) = (h', cs') \<Longrightarrow> distinct (dict_keys cs) \<Longrightarrow>
   distinct (dict_keys cs')"
proof (induction es arbitrary: h cs)
  case Nil
  then show ?case by simp
next
  case (Cons e es)
  from Cons.prems(1) have f: "fold parse_class es
      (h @ [declared_class e], dict_setitem cs (element_get e ''name'') (length h)) = (h', cs')"
    by (simp add: parse_class_eq)
  from Cons.prems(2) have "distinct (dict_keys (dict_setitem cs (element_get e ''name'') (length h)))"
    by (rule distinct_keys_setitem)
  from Cons.IH [OF f this] show ?case .
qed

lemma fold_parse_class_named:
  "fold parse_class es (h, cs) = (h', cs') \<Longrightarrow> classes_named h cs \<Longrightarrow> classes_named h' cs'"
proof (induction es arbitrary: h cs)
  case Nil
  then show ?case by simp
next
  case (Cons e es)
  let ?h1 = "h @ [declared_class e]"
  let ?c1 = "dict_setitem cs (element_get e ''name'') (length h)"
  from Cons.prems(1) have f: "fold parse_class es (?h1, ?c1) = (h', cs')"
    by (simp add: parse_class_eq)
  have "parse_class e (h, cs) = (?h1, ?c1)" by (rule parse_class_eq)
  from classes_named_parse_class [OF Cons.prems(2) this] have "classes_named ?h1 ?c1" .
  from Cons.IH [OF f this] show ?case .
qed

text \<open>The link phase keeps the heap well formed.\<close>

lemma link_loop_known:
  "link_loop cs h aggs = Inr h' \<Longrightarrow> g \<in> set aggs \<Longrightarrow>
   \<exists>s t. map_of cs (source g) = Some s \<and> map_of cs (target g) = Some t"
proof (induction aggs arbitrary: h)
  case Nil
  then show ?case by simp
next
  case (Cons x xs)
  from Cons.prems(1) obtain h1 where x: "link_aggregation cs h x = Inr h1"
    and l: "link_loop cs h1 xs = Inr h'"
    by (auto split: sum.splits)
  show ?case
  proof (cases "g = x")
    case True
    from x show ?thesis unfolding True by (rule link_aggregation_Inr) blast
  next
    case False
    with Cons.prems(2) have "g \<in> set xs" by simp
    from Cons.IH [OF l this] show ?thesis .
  qed
qed

lemma link_loop_closed:
  assumes l: "link_loop cs h aggs = Inr h'" and v: "classes_valid h cs" and c: "heap_closed h"
  shows "heap_closed h'"
  unfolding heap_closed_def
proof (intro allI impI ballI)
  fix a x assume a: "a < length h'" and x: "x \<in> set (children (h' ! a))"
  from v have v': "\<forall>a \<in> set (dict_values cs). a < length h" by (simp add: classes_valid_def)
  note e = link_loop_effect [OF l v', of a]
  from e have len: "length h' = length h" by simp
  from e x consider "x \<in> set (children (h ! a))"
    | g where "g \<in> set aggs" "x = the (map_of cs (source g))"
    by auto
  then show "x < length h'"
  proof cases
    case 1
    with c a len show ?thesis by (simp add: heap_closed_def)
  next
    case 2
    from link_loop_known [OF l 2(1)] obtain s where "map_of cs (source g) = Some s" by blast
    with 2(2) dict_value_valid [OF v' this] len show ?thesis by simp
  qed
qed

lemma link_loop_named:
  assumes l: "link_loop cs h aggs = Inr h'" and n: "classes_named h cs"
  shows "classes_named h' cs"
proof -
  from n have v': "\<forall>a \<in> set (dict_values cs). a < length h"
    by (force simp: classes_named_def dict_values_def)
  show ?thesis
    unfolding classes_named_def
  proof clarify
    fix k a assume "(k, a) \<in> set cs"
    with n have "a < length h" "name (h ! a) = k" by (auto simp: classes_named_def)
    with link_loop_effect [OF l v', of a] show "a < length h' \<and> name (h' ! a) = k" by simp
  qed
qed

lemma classes_named_valid: "classes_named h cs \<Longrightarrow> classes_valid h cs"
  by (force simp: classes_named_def classes_valid_def dict_values_def)

text \<open>What holds of every model that \<^verbatim>\<open>ModelParser\<close> builds.\<close>

lemma built_model:
  assumes "ModelParser_init root_elem = Inr (h, p)"
  shows "heap_closed h" and "classes_named h (classes p)" and "distinct (dict_keys (classes p))"
    and "set (dict_keys (classes p)) =
           (\<lambda>e. element_get e ''name'') ` set (findall_descendants root_elem ''Class'')"
    and "aggregations p = map parse_aggregation (findall_descendants root_elem ''Aggregation'')"
    and "\<exists>h0. fold parse_class (findall_descendants root_elem ''Class'') ([], []) = (h0, classes p)
           \<and> link_loop (classes p) h0 (aggregations p) = Inr h"
proof -
  obtain h0 cs where f: "fold parse_class (findall_descendants root_elem ''Class'') ([], []) = (h0, cs)"
    by (cases "fold parse_class (findall_descendants root_elem ''Class'') ([], [])") auto
  let ?aggs = "map parse_aggregation (findall_descendants root_elem ''Aggregation'')"
  from assms f have l: "link_loop cs h0 ?aggs = Inr h" and p: "p = \<lparr>classes = cs, aggregations = ?aggs\<rparr>"
    by (auto simp: ModelParser_init_def parse_xml_def Let_def split: sum.splits)
  have n0: "classes_named h0 cs"
    by (rule fold_parse_class_named [OF f]) (simp add: classes_named_def)
  have h0: "h0 = map declared_class (findall_descendants root_elem ''Class'')"
    using fold_parse_class_heap [OF f] by simp
  have c0: "heap_closed h0"
    by (simp add: heap_closed_def h0 declared_class_def)
  from link_loop_closed [OF l classes_named_valid [OF n0] c0] show "heap_closed h" .
  from link_loop_named [OF l n0] p show "classes_named h (classes p)" by simp
  from fold_parse_class_distinct [OF f] p show "distinct (dict_keys (classes p))"
    by (simp add: dict_keys_def)
  from fold_parse_class_keys [OF f] p
  show "set (dict_keys (classes p)) =
           (\<lambda>e. element_get e ''name'') ` set (findall_descendants root_elem ''Class'')"
    by (simp add: dict_keys_def)
  from p show "aggregations p = ?aggs" by simp
  from f l p show "\<exists>h0. fold parse_class (findall_descendants root_elem ''Class'') ([], []) = (h0, classes p)
           \<and> link_loop (classes p) h0 (aggregations p) = Inr h"
    by simp
qed

text \<open>The metadata generator in closed form.\<close>

lemma fold_append_each: "fold (\<lambda>x acc. acc @ [f x]) xs acc = acc @ map f xs"
  by (induction xs arbitrary: acc) simp_all

lemma fold_append_parameters:
  "fold (\<lambda>x e. e\<lparr>m_parameters := m_parameters e @ [f x]\<rparr>) xs e =
     e\<lparr>m_parameters := m_parameters e @ map f xs\<rparr>"
  by (induction xs arbitrary: e) simp_all

lemma meta_entry_of_eq:
  "meta_entry_of h cls =
     \<lparr>m_class = name (h ! cls), m_documentation = documentation (h ! cls),
      m_isRoot = is_root (h ! cls), m_max = max_bound (h ! cls), m_min = min_bound (h ! cls),
      m_parameters =
        map (\<lambda>attr. \<lparr>p_name = attr_name attr, p_type = attr_type attr\<rparr>) (attributes (h ! cls)) @
        map (\<lambda>child. \<lparr>p_name = name (h ! child), p_type = Some ''class''\<rparr>) (children (h ! cls))\<rparr>"
  by (simp add: meta_entry_of_def Let_def fold_append_parameters)

lemma MetaJSONGenerator_generate_eq:
  "MetaJSONGenerator_generate h cs = map (meta_entry_of h) (dict_values cs)"
  by (simp add: MetaJSONGenerator_generate_def fold_append_each)

lemma distinct_count_one:
  "distinct xs \<Longrightarrow> x \<in> set xs \<Longrightarrow> length (filter (\<lambda>y. y = x) xs) = 1"
proof (induction xs)
  case Nil
  then show ?case by simp
next
  case (Cons y ys)
  show ?case
  proof (cases "y = x")
    case True
    with Cons.prems(1) have "filter (\<lambda>y. y = x) ys = []" by (auto simp: filter_empty_conv)
    with True show ?thesis by simp
  next
    case False
    with Cons show ?thesis by simp
  qed
qed

lemma meta_classes_of_named:
  assumes "classes_named h cs"
  shows "map m_class (MetaJSONGenerator_generate h cs) = dict_keys cs"
proof -
  have "m_class (meta_entry_of h (snd kv)) = fst kv" if "kv \<in> set cs" for kv
    using that assms by (cases kv) (auto simp: classes_named_def meta_entry_of_eq)
  then show ?thesis
    by (simp add: MetaJSONGenerator_generate_eq dict_values_def dict_keys_def)
qed

lemma link_aggregation_unknown:
  "map_of cs (source agg) = None \<or> map_of cs (target agg) = None \<longleftrightarrow>
   link_aggregation cs h agg = Inl KeyError"
proof -
  have "e \<noteq> KeyError" if "parse_multiplicity m = Inl e" for m e
    using that by (auto simp: parse_multiplicity_def split: option.splits if_splits list.splits)
  then show ?thesis
    by (auto simp: link_aggregation_def dict_getitem_def Let_def split: option.splits sum.splits)
qed

lemma link_loop_append:
  "link_loop cs h (xs @ ys) =
     (case link_loop cs h xs of Inl e \<Rightarrow> Inl e | Inr h1 \<Rightarrow> link_loop cs h1 ys)"
  by (induction xs arbitrary: h) (auto split: sum.splits)

text \<open>The hierarchical generator: the loop over the children, and more fuel.\<close>

lemma generate_Suc:
  "ConfigXMLGenerator_generate (Suc n) h x =
     append_children (ConfigXMLGenerator_generate n h) (children (h ! x))
       (Some (attribute_elements (h ! x)))"
  by (simp add: append_children_def attribute_elements_def Let_def)

lemma append_children_Nil: "append_children g [] r = r"
  by (simp add: append_children_def)

lemma append_children_Cons:
  "append_children g (c # cs) r =
     append_children g cs
       (case r of None \<Rightarrow> None
        | Some r' \<Rightarrow> (case g c of None \<Rightarrow> None | Some e \<Rightarrow> Some (append_subelement r' e)))"
  by (simp add: append_children_def)

lemma append_children_None: "append_children g cs None = None"
  by (induction cs) (simp_all add: append_children_Nil append_children_Cons)

lemma append_children_diverges:
  "c \<in> set cs \<Longrightarrow> g c = None \<Longrightarrow> append_children g cs r = None"
proof (induction cs arbitrary: r)
  case Nil
  then show ?case by simp
next
  case (Cons x xs)
  show ?case
  proof (cases "x = c")
    case True
    with Cons.prems(2) show ?thesis
      by (simp add: append_children_Cons append_children_None split: option.splits)
  next
    case False
    with Cons.prems have "c \<in> set xs" by simp
    from Cons.IH [OF this Cons.prems(2)] show ?thesis by (simp add: append_children_Cons)
  qed
qed

lemma append_children_returns:
  "\<forall>c \<in> set cs. \<exists>e. g c = Some e \<Longrightarrow> \<exists>r'. append_children g cs (Some r) = Some r'"
proof (induction cs arbitrary: r)
  case Nil
  then show ?case by (simp add: append_children_Nil)
next
  case (Cons x xs)
  then obtain e where e: "g x = Some e" by auto
  from Cons.prems have "\<forall>c \<in> set xs. \<exists>e. g c = Some e" by simp
  from Cons.IH [OF this, of "append_subelement r e"] e show ?case
    by (simp add: append_children_Cons)
qed

lemma append_children_mono:
  assumes "\<And>c e. c \<in> set cs \<Longrightarrow> g c = Some e \<Longrightarrow> g' c = Some e"
    and "append_children g cs r = Some r'"
  shows "append_children g' cs r = Some r'"
  using assms
proof (induction cs arbitrary: r)
  case Nil
  then show ?case by (simp add: append_children_Nil)
next
  case (Cons x xs)
  from Cons.prems(2) obtain r0 where r: "r = Some r0"
    by (cases r) (simp_all add: append_children_None append_children_Cons)
  from Cons.prems(2) r obtain e where e: "g x = Some e"
    by (cases "g x") (simp_all add: append_children_None append_children_Cons)
  from Cons.prems(1) [OF _ e] have e': "g' x = Some e" by simp
  from Cons.prems(2) r e have "append_children g xs (Some (append_subelement r0 e)) = Some r'"
    by (simp add: append_children_Cons)
  from Cons.IH [OF _ this] Cons.prems(1) have "append_children g' xs (Some (append_subelement r0 e)) = Some r'"
    by simp
  with r e' show ?case by (simp add: append_children_Cons)
qed

lemma generate_more_fuel:
  "ConfigXMLGenerator_generate n h x = Some e \<Longrightarrow> ConfigXMLGenerator_generate (Suc n) h x = Some e"
proof (induction n arbitrary: x e)
  case 0
  then show ?case by simp
next
  case (Suc n)
  from Suc.prems have "append_children (ConfigXMLGenerator_generate n h) (children (h ! x))
       (Some (attribute_elements (h ! x))) = Some e"
    by (simp only: generate_Suc)
  then have "append_children (ConfigXMLGenerator_generate (Suc n) h) (children (h ! x))
       (Some (attribute_elements (h ! x))) = Some e"
    by (rule append_children_mono [rotated]) (rule Suc.IH)
  then show ?case by (simp only: generate_Suc)
qed

lemma generate_fuel_mono:
  "ConfigXMLGenerator_generate n h x = Some e \<Longrightarrow> n \<le> m \<Longrightarrow>
   ConfigXMLGenerator_generate m h x = Some e"
proof (induction m)
  case 0
  then show ?case by simp
next
  case (Suc m)
  show ?case
  proof (cases "n = Suc m")
    case True
    with Suc.prems(1) show ?thesis by (simp only:)
  next
    case False
    with Suc.prems(2) have "n \<le> m" by simp
    from Suc.IH [OF Suc.prems(1) this] show ?thesis by (rule generate_more_fuel)
  qed
qed

lemma common_fuel:
  "\<forall>c \<in> set cs. \<exists>n e. ConfigXMLGenerator_generate n h c = Some e \<Longrightarrow>
   \<exists>N. \<forall>c \<in> set cs. \<exists>e. ConfigXMLGenerator_generate N h c = Some e"
proof (induction cs)
  case Nil
  then show ?case by simp
next
  case (Cons x xs)
  then obtain N where N: "\<forall>c \<in> set xs. \<exists>e. ConfigXMLGenerator_generate N h c = Some e" by auto
  from Cons.prems obtain n e where n: "ConfigXMLGenerator_generate n h x = Some e" by auto
  have "\<forall>c \<in> set (x # xs). \<exists>e. ConfigXMLGenerator_generate (max n N) h c = Some e"
  proof
    fix c assume "c \<in> set (x # xs)"
    then consider "c = x" | "c \<in> set xs" by auto
    then show "\<exists>e. ConfigXMLGenerator_generate (max n N) h c = Some e"
    proof cases
      case 1
      with generate_fuel_mono [OF n, of "max n N"] show ?thesis by auto
    next
      case 2
      with N obtain e' where "ConfigXMLGenerator_generate N h c = Some e'" by auto
      from generate_fuel_mono [OF this, of "max n N"] show ?thesis by auto
    qed
  qed
  then show ?case by blast
qed

lemma containment_closed:
  assumes "heap_closed h" and "(p, c) \<in> containment h"
  shows "p < length h \<and> c < length h"
  using assms by (auto simp: heap_closed_def containment_def)

lemma reachable_closed:
  assumes "heap_closed h" and "x < length h" and "(x, y) \<in> (containment h)\<^sup>*"
  shows "y < length h"
  using assms(3,2)
  by (induction rule: rtrancl_induct) (auto dest: containment_closed [OF assms(1)])

lemma finite_containment:
  assumes "heap_closed h"
  shows "finite (containment h)"
proof -
  have "containment h \<subseteq> {..<length h} \<times> {..<length h}"
    using containment_closed [OF assms] by auto
  then show ?thesis by (rule finite_subset) simp
qed

lemma render_returns:
  assumes c: "heap_closed h" and x: "x < length h" and a: "acyclic_below h x"
  shows "\<exists>n e. ConfigXMLGenerator_generate n h x = Some e"
proof -
  let ?R = "containment h"
  define Q where "Q = {(p, c). (p, c) \<in> ?R \<and> (x, p) \<in> ?R\<^sup>*}"
  have sub: "Q \<subseteq> ?R" by (auto simp: Q_def)
  have fin: "finite Q" using sub finite_containment [OF c] by (rule finite_subset)
  have reach: "(x, p) \<in> ?R\<^sup>*" if "(p, q) \<in> Q\<^sup>+" for p q
    using that by (induction rule: trancl_induct) (auto simp: Q_def)
  have "acyclic Q"
    unfolding acyclic_def
  proof (intro allI notI)
    fix p assume p: "(p, p) \<in> Q\<^sup>+"
    then have "(p, p) \<in> ?R\<^sup>+" using sub by (meson trancl_mono)
    moreover from reach [OF p] a have "(p, p) \<notin> ?R\<^sup>+" by (simp add: acyclic_below_def)
    ultimately show False by contradiction
  qed
  with fin have wf: "wf (Q\<inverse>)" by (rule finite_acyclic_wf_converse)
  have "(x, p) \<in> ?R\<^sup>* \<longrightarrow> (\<exists>n e. ConfigXMLGenerator_generate n h p = Some e)" for p
  proof (induction p rule: wf_induct_rule [OF wf])
    case (1 p)
    show ?case
    proof
      assume r: "(x, p) \<in> ?R\<^sup>*"
      from reachable_closed [OF c x r] have pl: "p < length h" .
      have "\<forall>ch \<in> set (children (h ! p)). \<exists>n e. ConfigXMLGenerator_generate n h ch = Some e"
      proof
        fix ch assume ch: "ch \<in> set (children (h ! p))"
        with pl have e: "(p, ch) \<in> ?R" by (simp add: containment_def)
        with r have "(ch, p) \<in> Q\<inverse>" by (simp add: Q_def)
        moreover from r e have "(x, ch) \<in> ?R\<^sup>*" by (rule rtrancl_into_rtrancl)
        ultimately show "\<exists>n e. ConfigXMLGenerator_generate n h ch = Some e"
          using 1 by blast
      qed
      from common_fuel [OF this] obtain N where
        "\<forall>ch \<in> set (children (h ! p)). \<exists>e. ConfigXMLGenerator_generate N h ch = Some e" ..
      from append_children_returns [of "children (h ! p)" "ConfigXMLGenerator_generate N h",
          OF this, of "attribute_elements (h ! p)"]
      have "\<exists>e. ConfigXMLGenerator_generate (Suc N) h p = Some e"
        by (simp only: generate_Suc)
      then show "\<exists>n e. ConfigXMLGenerator_generate n h p = Some e" by blast
    qed
  qed
  then show ?thesis by blast
qed

lemma render_diverges:
  assumes "(x, c) \<in> (containment h)\<^sup>*" and "(c, c) \<in> (containment h)\<^sup>+"
  shows "ConfigXMLGenerator_generate n h x = None"
  using assms(1)
proof (induction n arbitrary: x)
  case 0
  show ?case by simp
next
  case (Suc n)
  let ?R = "containment h"
  have "\<exists>y. (x, y) \<in> ?R \<and> (y, c) \<in> ?R\<^sup>*"
  proof (cases "x = c")
    case True
    from assms(2) obtain y where "(c, y) \<in> ?R" "(y, c) \<in> ?R\<^sup>*"
      by (meson tranclD)
    with True show ?thesis by blast
  next
    case False
    with Suc.prems have "(x, c) \<in> ?R\<^sup>+" by (simp add: rtrancl_eq_or_trancl)
    then obtain y where "(x, y) \<in> ?R" "(y, c) \<in> ?R\<^sup>*" by (meson tranclD)
    then show ?thesis by blast
  qed
  then obtain y where y: "(x, y) \<in> ?R" and yc: "(y, c) \<in> ?R\<^sup>*" by blast
  from y have m: "y \<in> set (children (h ! x))" by (simp add: containment_def)
  from Suc.IH [OF yc] have "ConfigXMLGenerator_generate n h y = None" .
  from append_children_diverges [of y "children (h ! x)" "ConfigXMLGenerator_generate n h", OF m this]
  show ?case by (simp only: generate_Suc)
qed

subsection \<open>The example documents, evaluated\<close>

lemmas parse_defs =
  ModelParser_init_def parse_xml_def findall_descendants_def findall_children_def
  parse_class_def parse_attribute_def element_get_def element_get_default_def
  ClassInfo_init_def parse_aggregation_def link_aggregation_def dict_getitem_def
  parse_multiplicity_def Let_def

lemma example_model_parsed: "ModelParser_init example_model = Inr (example_heap, example_parser)"
  by (simp add: parse_defs example_model_def example_heap_def example_parser_def)

lemma example_model_linked:
  "link_loop (classes example_parser) example_declared (aggregations example_parser) =
     Inr example_heap"
  by (simp add: parse_defs example_declared_def example_heap_def example_parser_def)

lemma cyclic_model_parsed: "ModelParser_init cyclic_model = Inr (cyclic_heap, cyclic_parser)"
  by (simp add: parse_defs cyclic_model_def cyclic_heap_def cyclic_parser_def)


lemma trancl_decreasing:
  fixes f :: "'a \<Rightarrow> nat"
  assumes "\<And>p c. (p, c) \<in> R \<Longrightarrow> f c < f p" and "(x, y) \<in> R\<^sup>+"
  shows "f y < f x"
  using assms(2)
proof (induction rule: trancl_induct)
  case (base y)
  then show ?case by (rule assms(1))
next
  case (step y z)
  from assms(1) [OF step.hyps(2)] step.IH show ?case by simp
qed

lemma example_heap_closed: "heap_closed example_heap"
  by (auto simp: heap_closed_def example_heap_def numeral_3_eq_3 less_Suc_eq)

lemma example_heap_acyclic: "acyclic_below example_heap 0"
proof -
  let ?f = "\<lambda>a::nat. if a = 0 then 2 else if a = 2 then 1 else (0::nat)"
  have e: "?f c < ?f p" if "(p, c) \<in> containment example_heap" for p c
    using that
    by (auto simp: containment_def example_heap_def numeral_3_eq_3 less_Suc_eq)
  have "(c, c) \<notin> (containment example_heap)\<^sup>+" for c
  proof
    assume "(c, c) \<in> (containment example_heap)\<^sup>+"
    from trancl_decreasing [of "containment example_heap" ?f, OF e this] show False by simp
  qed
  then show ?thesis by (simp add: acyclic_below_def)
qed

lemma cyclic_heap_closed: "heap_closed cyclic_heap"
  by (auto simp: heap_closed_def cyclic_heap_def less_Suc_eq numeral_2_eq_2)

lemma cyclic_heap_cyclic: "\<not> acyclic_below cyclic_heap 0"
proof -
  have a: "(0, 1) \<in> containment cyclic_heap" and b: "(1, 0) \<in> containment cyclic_heap"
    by (simp_all add: containment_def cyclic_heap_def)
  from a b have "(0, 0) \<in> (containment cyclic_heap)\<^sup>+" by (rule trancl_into_trancl2 [OF _ r_into_trancl])
  moreover have "(0, 0) \<in> (containment cyclic_heap)\<^sup>*" by simp
  ultimately show ?thesis unfolding acyclic_below_def by blast
qed

lemma example_rendered:
  "ConfigXMLGenerator_generate 3 example_heap 0 =
     Some (Element (Some ''A'') [] None
       [Element (Some ''id'') [] (Some ''uint32'') [],
        Element (Some ''B'') [] None [],
        Element (Some ''C'') [] None [Element (Some ''B'') [] None []]])"
  by (simp add: numeral_3_eq_3 example_heap_def append_subelement_def py_str_def)


section \<open>Claims about the class model\<close>




text \<open>
  Claim C7.  The root resolver returns the first class, in the order of
  \<^verbatim>\<open>classes.values()\<close>, that is flagged as root, whatever follows it (so a second root is
  neither detected nor rejected); and it fails, with \<^verbatim>\<open>StopIteration\<close> and in no other way,
  exactly when no class is flagged as root.
\<close>

theorem get_root_class_first:
  "((\<forall>cls \<in> set (dict_values (classes self)). \<not> is_root (h ! cls)) \<longrightarrow>
      get_root_class h self = Inl StopIteration)
   \<and> (dict_values (classes self) = before @ cls # rest
        \<and> (\<forall>c \<in> set before. \<not> is_root (h ! c)) \<and> is_root (h ! cls) \<longrightarrow>
      get_root_class h self = Inr cls)
   \<and> (get_root_class h self = Inl e \<longrightarrow>
        e = StopIteration \<and> (\<forall>cls \<in> set (dict_values (classes self)). \<not> is_root (h ! cls)))"
proof -
  have 1: "(\<forall>cls \<in> set (dict_values (classes self)). \<not> is_root (h ! cls)) \<longrightarrow>
      get_root_class h self = Inl StopIteration"
    by (auto simp: get_root_class_def filter_empty_conv split: list.splits)
  have 2: "dict_values (classes self) = before @ cls # rest
        \<and> (\<forall>c \<in> set before. \<not> is_root (h ! c)) \<and> is_root (h ! cls) \<longrightarrow>
      get_root_class h self = Inr cls"
    by (auto simp: get_root_class_def filter_empty_conv)
  have 3: "get_root_class h self = Inl e \<longrightarrow>
        e = StopIteration \<and> (\<forall>cls \<in> set (dict_values (classes self)). \<not> is_root (h ! cls))"
    by (auto simp: get_root_class_def filter_empty_conv split: list.splits)
  from 1 2 3 show ?thesis by (intro conjI)
qed

theorem get_root_class_first_witness:
  "dict_values (classes cyclic_parser) = [] @ 0 # [1]
   \<and> is_root (cyclic_heap ! 0) \<and> is_root (cyclic_heap ! 1)
   \<and> get_root_class cyclic_heap cyclic_parser = Inr 0
   \<and> get_root_class example_heap \<lparr>classes = [(Some ''B'', 1), (Some ''A'', 0)], aggregations = []\<rparr> = Inr 0
   \<and> get_root_class example_heap \<lparr>classes = [(Some ''B'', 1), (Some ''C'', 2)], aggregations = []\<rparr>
       = Inl StopIteration"
proof -
  have d: "dict_values (classes cyclic_parser) = [] @ 0 # [1]"
    by (simp add: cyclic_parser_def dict_values_def)
  have r: "is_root (cyclic_heap ! 0)" "is_root (cyclic_heap ! 1)"
    by (simp_all add: cyclic_heap_def)
  have b: "\<forall>c \<in> set []. \<not> is_root (cyclic_heap ! c)" by simp
  from get_root_class_first [of cyclic_parser cyclic_heap "[]" 0 "[1]"] d b r(1)
  have g1: "get_root_class cyclic_heap cyclic_parser = Inr 0" by blast
  let ?p = "\<lparr>classes = [(Some ''B'', 1), (Some ''A'', 0)], aggregations = []\<rparr>"
  have d2: "dict_values (classes ?p) = [1] @ 0 # []" by (simp add: dict_values_def)
  have b2: "\<forall>c \<in> set [1]. \<not> is_root (example_heap ! c)" by (simp add: example_heap_def)
  have r2: "is_root (example_heap ! 0)" by (simp add: example_heap_def)
  from get_root_class_first [of ?p example_heap "[1]" 0 "[]"] d2 b2 r2
  have g2: "get_root_class example_heap ?p = Inr 0" by blast
  let ?q = "\<lparr>classes = [(Some ''B'', 1), (Some ''C'', 2)], aggregations = []\<rparr>"
  have n: "\<forall>cls \<in> set (dict_values (classes ?q)). \<not> is_root (example_heap ! cls)"
    by (simp add: dict_values_def example_heap_def)
  from get_root_class_first [of ?q example_heap] n
  have g3: "get_root_class example_heap ?q = Inl StopIteration" by blast
  from d r g1 g2 g3 show ?thesis by (intro conjI)
qed

text \<open>
  Claim C4.  One edge whose source and target are known classes and whose multiplicity
  parses appends the source object to the children of the target object and overwrites
  the bounds of the source object with the parsed pair; no other children and no other
  bounds change.  After the whole loop, the children of every object are its children
  from before followed by the sources of the edges into it, in the order of the edges;
  and the bounds of an object that is the source of several edges are the parse of the
  last such edge (an object that is the source of no edge keeps its bounds).
\<close>

theorem aggregation_edge_effect:
  assumes valid: "classes_valid h cs"
  shows "(map_of cs (source agg) = Some s \<and> map_of cs (target agg) = Some t
          \<and> parse_multiplicity (sourceMultiplicity agg) = Inr (lo, hi) \<longrightarrow>
          (\<exists>h1. link_aggregation cs h agg = Inr h1
             \<and> children (h1 ! t) = children (h ! t) @ [s]
             \<and> min_bound (h1 ! s) = lo \<and> max_bound (h1 ! s) = hi
             \<and> (\<forall>a. a \<noteq> t \<longrightarrow> children (h1 ! a) = children (h ! a))
             \<and> (\<forall>a. a \<noteq> s \<longrightarrow> min_bound (h1 ! a) = min_bound (h ! a)
                                \<and> max_bound (h1 ! a) = max_bound (h ! a))))
    \<and> (link_loop cs h aggs = Inr h' \<longrightarrow>
         (\<forall>a. children (h' ! a) = children (h ! a) @
                 map (\<lambda>g. the (map_of cs (source g)))
                   (filter (\<lambda>g. map_of cs (target g) = Some a) aggs)
            \<and> (let gs = filter (\<lambda>g. map_of cs (source g) = Some a) aggs
                in if gs = []
                   then min_bound (h' ! a) = min_bound (h ! a)
                        \<and> max_bound (h' ! a) = max_bound (h ! a)
                   else parse_multiplicity (sourceMultiplicity (last gs)) =
                          Inr (min_bound (h' ! a), max_bound (h' ! a)))))"
proof -
  from valid have v: "\<forall>a \<in> set (dict_values cs). a < length h"
    by (simp add: classes_valid_def)
  have step: "\<exists>h1. link_aggregation cs h agg = Inr h1
             \<and> children (h1 ! t) = children (h ! t) @ [s]
             \<and> min_bound (h1 ! s) = lo \<and> max_bound (h1 ! s) = hi
             \<and> (\<forall>a. a \<noteq> t \<longrightarrow> children (h1 ! a) = children (h ! a))
             \<and> (\<forall>a. a \<noteq> s \<longrightarrow> min_bound (h1 ! a) = min_bound (h ! a)
                                \<and> max_bound (h1 ! a) = max_bound (h ! a))"
    if s: "map_of cs (source agg) = Some s" and t: "map_of cs (target agg) = Some t"
      and m: "parse_multiplicity (sourceMultiplicity agg) = Inr (lo, hi)"
  proof -
    have sl: "s < length h" and tl: "t < length h"
      using v s t by (auto intro: dict_value_valid)
    show ?thesis
      unfolding link_aggregation_eq [OF s t m] using sl tl by (auto simp: nth_list_update)
  qed
  have loop: "\<forall>a. children (h' ! a) = children (h ! a) @
                 map (\<lambda>g. the (map_of cs (source g)))
                   (filter (\<lambda>g. map_of cs (target g) = Some a) aggs)
            \<and> (let gs = filter (\<lambda>g. map_of cs (source g) = Some a) aggs
                in if gs = []
                   then min_bound (h' ! a) = min_bound (h ! a)
                        \<and> max_bound (h' ! a) = max_bound (h ! a)
                   else parse_multiplicity (sourceMultiplicity (last gs)) =
                          Inr (min_bound (h' ! a), max_bound (h' ! a)))"
    if l: "link_loop cs h aggs = Inr h'"
    using link_loop_effect [OF l v] by blast
  from step loop show ?thesis by blast
qed

theorem aggregation_edge_effect_witness:
  "classes_valid example_declared (classes example_parser)
   \<and> link_loop (classes example_parser) example_declared (aggregations example_parser) =
       Inr example_heap
   \<and> children (example_heap ! 0) = children (example_declared ! 0) @
        map (\<lambda>g. the (map_of (classes example_parser) (source g)))
          (filter (\<lambda>g. map_of (classes example_parser) (target g) = Some 0)
             (aggregations example_parser))
   \<and> children (example_heap ! 0) = [1, 2]
   \<and> (let gs = filter (\<lambda>g. map_of (classes example_parser) (source g) = Some 1)
                  (aggregations example_parser)
       in if gs = []
          then min_bound (example_heap ! 1) = min_bound (example_declared ! 1)
               \<and> max_bound (example_heap ! 1) = max_bound (example_declared ! 1)
          else parse_multiplicity (sourceMultiplicity (last gs)) =
                 Inr (min_bound (example_heap ! 1), max_bound (example_heap ! 1)))
   \<and> min_bound (example_heap ! 1) = ''2'' \<and> max_bound (example_heap ! 1) = ''3''"
proof -
  have v: "classes_valid example_declared (classes example_parser)"
    by (simp add: classes_valid_def example_declared_def example_parser_def dict_values_def)
  note l = example_model_linked
  from aggregation_edge_effect [OF v, of _ _ _ _ _ "aggregations example_parser" example_heap]
  have "link_loop (classes example_parser) example_declared (aggregations example_parser) =
          Inr example_heap \<longrightarrow>
        (\<forall>a. children (example_heap ! a) = children (example_declared ! a) @
                 map (\<lambda>g. the (map_of (classes example_parser) (source g)))
                   (filter (\<lambda>g. map_of (classes example_parser) (target g) = Some a)
                      (aggregations example_parser))
            \<and> (let gs = filter (\<lambda>g. map_of (classes example_parser) (source g) = Some a)
                           (aggregations example_parser)
                in if gs = []
                   then min_bound (example_heap ! a) = min_bound (example_declared ! a)
                        \<and> max_bound (example_heap ! a) = max_bound (example_declared ! a)
                   else parse_multiplicity (sourceMultiplicity (last gs)) =
                          Inr (min_bound (example_heap ! a), max_bound (example_heap ! a))))"
    by (rule conjunct2)
  from this l have a: "\<forall>a. children (example_heap ! a) = children (example_declared ! a) @
                 map (\<lambda>g. the (map_of (classes example_parser) (source g)))
                   (filter (\<lambda>g. map_of (classes example_parser) (target g) = Some a)
                      (aggregations example_parser))
            \<and> (let gs = filter (\<lambda>g. map_of (classes example_parser) (source g) = Some a)
                           (aggregations example_parser)
                in if gs = []
                   then min_bound (example_heap ! a) = min_bound (example_declared ! a)
                        \<and> max_bound (example_heap ! a) = max_bound (example_declared ! a)
                   else parse_multiplicity (sourceMultiplicity (last gs)) =
                          Inr (min_bound (example_heap ! a), max_bound (example_heap ! a)))"
    by (rule mp)
  from a [THEN spec, of 0] have c0: "children (example_heap ! 0) = children (example_declared ! 0) @
        map (\<lambda>g. the (map_of (classes example_parser) (source g)))
          (filter (\<lambda>g. map_of (classes example_parser) (target g) = Some 0)
             (aggregations example_parser))"
    by (rule conjunct1)
  from a [THEN spec, of 1] have c1: "(let gs = filter (\<lambda>g. map_of (classes example_parser) (source g) = Some 1)
                  (aggregations example_parser)
       in if gs = []
          then min_bound (example_heap ! 1) = min_bound (example_declared ! 1)
               \<and> max_bound (example_heap ! 1) = max_bound (example_declared ! 1)
          else parse_multiplicity (sourceMultiplicity (last gs)) =
                 Inr (min_bound (example_heap ! 1), max_bound (example_heap ! 1)))"
    by (rule conjunct2)
  have e: "children (example_heap ! 0) = [1, 2]" "min_bound (example_heap ! 1) = ''2''"
    "max_bound (example_heap ! 1) = ''3''"
    by (simp_all add: example_heap_def)
  from v l c0 e(1) c1 e(2,3) show ?thesis by (intro conjI)
qed

text \<open>
  Claim C6.  The metadata generator is a total function of the heap and the class
  dict: it loops once over the dict and follows no child, so it returns for every
  model, cyclic or not.  It emits one record per entry of the dict, in order, with the
  fields of the class and with the attributes, in declaration order, followed by one
  \<^verbatim>\<open>{name, "class"}\<close> entry per child, in containment order, as parameters; their number is
  the number of attributes plus the number of children.  For a model built from a
  document, every declared class name has exactly one record, and every record is that
  of a declared class.
\<close>

theorem meta_one_record_per_class:
  "length (MetaJSONGenerator_generate h cs) = length cs
   \<and> (\<forall>i < length cs.
        MetaJSONGenerator_generate h cs ! i =
          \<lparr>m_class = name (h ! snd (cs ! i)), m_documentation = documentation (h ! snd (cs ! i)),
           m_isRoot = is_root (h ! snd (cs ! i)), m_max = max_bound (h ! snd (cs ! i)),
           m_min = min_bound (h ! snd (cs ! i)),
           m_parameters =
             map (\<lambda>attr. \<lparr>p_name = attr_name attr, p_type = attr_type attr\<rparr>)
               (attributes (h ! snd (cs ! i))) @
             map (\<lambda>child. \<lparr>p_name = name (h ! child), p_type = Some ''class''\<rparr>)
               (children (h ! snd (cs ! i)))\<rparr>
        \<and> length (m_parameters (MetaJSONGenerator_generate h cs ! i)) =
            length (attributes (h ! snd (cs ! i))) + length (children (h ! snd (cs ! i))))
   \<and> (ModelParser_init root_elem = Inr (h', p) \<longrightarrow>
        (\<forall>e \<in> set (findall_descendants root_elem ''Class'').
           length (filter (\<lambda>r. m_class r = element_get e ''name'')
                     (MetaJSONGenerator_generate h' (classes p))) = 1)
        \<and> (\<forall>r \<in> set (MetaJSONGenerator_generate h' (classes p)).
             \<exists>e \<in> set (findall_descendants root_elem ''Class''). m_class r = element_get e ''name''))"
proof -
  have 1: "length (MetaJSONGenerator_generate h cs) = length cs"
    by (simp add: MetaJSONGenerator_generate_eq dict_values_def)
  have 2: "\<forall>i < length cs.
        MetaJSONGenerator_generate h cs ! i =
          \<lparr>m_class = name (h ! snd (cs ! i)), m_documentation = documentation (h ! snd (cs ! i)),
           m_isRoot = is_root (h ! snd (cs ! i)), m_max = max_bound (h ! snd (cs ! i)),
           m_min = min_bound (h ! snd (cs ! i)),
           m_parameters =
             map (\<lambda>attr. \<lparr>p_name = attr_name attr, p_type = attr_type attr\<rparr>)
               (attributes (h ! snd (cs ! i))) @
             map (\<lambda>child. \<lparr>p_name = name (h ! child), p_type = Some ''class''\<rparr>)
               (children (h ! snd (cs ! i)))\<rparr>
        \<and> length (m_parameters (MetaJSONGenerator_generate h cs ! i)) =
            length (attributes (h ! snd (cs ! i))) + length (children (h ! snd (cs ! i)))"
    by (simp add: MetaJSONGenerator_generate_eq dict_values_def meta_entry_of_eq)
  have 3: "(\<forall>e \<in> set (findall_descendants root_elem ''Class'').
           length (filter (\<lambda>r. m_class r = element_get e ''name'')
                     (MetaJSONGenerator_generate h' (classes p))) = 1)
        \<and> (\<forall>r \<in> set (MetaJSONGenerator_generate h' (classes p)).
             \<exists>e \<in> set (findall_descendants root_elem ''Class''). m_class r = element_get e ''name'')"
    if b: "ModelParser_init root_elem = Inr (h', p)"
  proof -
    let ?meta = "MetaJSONGenerator_generate h' (classes p)"
    note m = meta_classes_of_named [OF built_model(2) [OF b]]
    note d = built_model(3) [OF b] and k = built_model(4) [OF b]
    have a: "length (filter (\<lambda>r. m_class r = element_get e ''name'') ?meta) = 1"
      if e: "e \<in> set (findall_descendants root_elem ''Class'')" for e
    proof -
      from e k have "element_get e ''name'' \<in> set (dict_keys (classes p))" by auto
      from distinct_count_one [OF d this]
      have "length (filter (\<lambda>y. y = element_get e ''name'') (map m_class ?meta)) = 1"
        by (simp only: m)
      then show ?thesis by (simp add: filter_map o_def)
    qed
    have c: "\<exists>e \<in> set (findall_descendants root_elem ''Class''). m_class r = element_get e ''name''"
      if r: "r \<in> set ?meta" for r
    proof -
      from r have "m_class r \<in> set (map m_class ?meta)" by simp
      with m k show ?thesis by auto
    qed
    from a c show ?thesis by blast
  qed
  from 1 2 3 show ?thesis by blast
qed

theorem meta_one_record_per_class_witness:
  "ModelParser_init cyclic_model = Inr (cyclic_heap, cyclic_parser)
   \<and> MetaJSONGenerator_generate cyclic_heap (classes cyclic_parser) =
       [\<lparr>m_class = Some ''A'', m_documentation = [], m_isRoot = True, m_max = ''1'', m_min = ''0'',
         m_parameters = [\<lparr>p_name = Some ''B'', p_type = Some ''class''\<rparr>]\<rparr>,
        \<lparr>m_class = Some ''B'', m_documentation = [], m_isRoot = True, m_max = ''1'', m_min = ''1'',
         m_parameters = [\<lparr>p_name = Some ''x'', p_type = Some ''string''\<rparr>,
                         \<lparr>p_name = Some ''A'', p_type = Some ''class''\<rparr>]\<rparr>]
   \<and> length (filter (\<lambda>r. m_class r =
         element_get (Element (Some ''Class'') [(''name'', ''A''), (''isRoot'', ''true'')] None []) ''name'')
           (MetaJSONGenerator_generate cyclic_heap (classes cyclic_parser))) = 1
   \<and> length (MetaJSONGenerator_generate cyclic_heap (classes cyclic_parser)) =
       length (classes cyclic_parser)"
proof -
  let ?e = "Element (Some ''Class'') [(''name'', ''A''), (''isRoot'', ''true'')] None []"
  note b = cyclic_model_parsed
  note t = meta_one_record_per_class [of cyclic_heap "classes cyclic_parser" cyclic_model
      cyclic_heap cyclic_parser]
  from t have t1: "length (MetaJSONGenerator_generate cyclic_heap (classes cyclic_parser)) =
       length (classes cyclic_parser)"
    by (rule conjunct1)
  from t [THEN conjunct2, THEN conjunct2, THEN mp, OF b, THEN conjunct1]
  have a: "\<forall>e \<in> set (findall_descendants cyclic_model ''Class'').
           length (filter (\<lambda>r. m_class r = element_get e ''name'')
                     (MetaJSONGenerator_generate cyclic_heap (classes cyclic_parser))) = 1" .
  have e: "?e \<in> set (findall_descendants cyclic_model ''Class'')"
    by (simp add: cyclic_model_def findall_descendants_def)
  from a [THEN bspec, OF e]
  have c: "length (filter (\<lambda>r. m_class r = element_get ?e ''name'')
           (MetaJSONGenerator_generate cyclic_heap (classes cyclic_parser))) = 1" .
  have g: "MetaJSONGenerator_generate cyclic_heap (classes cyclic_parser) =
       [\<lparr>m_class = Some ''A'', m_documentation = [], m_isRoot = True, m_max = ''1'', m_min = ''0'',
         m_parameters = [\<lparr>p_name = Some ''B'', p_type = Some ''class''\<rparr>]\<rparr>,
        \<lparr>m_class = Some ''B'', m_documentation = [], m_isRoot = True, m_max = ''1'', m_min = ''1'',
         m_parameters = [\<lparr>p_name = Some ''x'', p_type = Some ''string''\<rparr>,
                         \<lparr>p_name = Some ''A'', p_type = Some ''class''\<rparr>]\<rparr>]"
    by (simp add: MetaJSONGenerator_generate_def meta_entry_of_def cyclic_heap_def
        cyclic_parser_def dict_values_def)
  from b g c t1 show ?thesis by (intro conjI)
qed

text \<open>
  Claim C8.  An edge is linked only when both its source and its target are keys of the
  class dict: the edge raises \<^verbatim>\<open>KeyError\<close>, the error of a failed dict lookup, exactly when
  one of the two names is unknown.  The loop then stops with this error when the edges
  before it were linked; a list of edges with an unknown name is never linked to the
  end; and a document in which an \<^verbatim>\<open>Aggregation\<close> names a class that no \<^verbatim>\<open>Class\<close> element
  declares yields no model.
\<close>

theorem unknown_class_fails:
  "(map_of cs (source agg) = None \<or> map_of cs (target agg) = None \<longrightarrow>
      link_aggregation cs h agg = Inl KeyError)
   \<and> (link_aggregation cs h agg = Inl KeyError \<longrightarrow>
      map_of cs (source agg) = None \<or> map_of cs (target agg) = None)
   \<and> (link_loop cs h before = Inr h1
        \<and> (map_of cs (source agg) = None \<or> map_of cs (target agg) = None) \<longrightarrow>
      link_loop cs h (before @ agg # rest) = Inl KeyError)
   \<and> ((\<exists>g \<in> set aggs. map_of cs (source g) = None \<or> map_of cs (target g) = None) \<longrightarrow>
      (\<exists>e. link_loop cs h aggs = Inl e))
   \<and> ((\<exists>agg_elem \<in> set (findall_descendants root_elem ''Aggregation'').
          element_get agg_elem ''source'' \<notin>
            (\<lambda>e. element_get e ''name'') ` set (findall_descendants root_elem ''Class'')
          \<or> element_get agg_elem ''target'' \<notin>
            (\<lambda>e. element_get e ''name'') ` set (findall_descendants root_elem ''Class'')) \<longrightarrow>
      (\<exists>e. ModelParser_init root_elem = Inl e))"
proof -
  note u = link_aggregation_unknown [of cs agg h]
  have 3: "link_loop cs h (before @ agg # rest) = Inl KeyError"
    if "link_loop cs h before = Inr h1"
      and "map_of cs (source agg) = None \<or> map_of cs (target agg) = None"
    using that link_aggregation_unknown [of cs agg h1] by (simp add: link_loop_append)
  have 4: "\<exists>e. link_loop cs h aggs = Inl e"
    if "\<exists>g \<in> set aggs. map_of cs (source g) = None \<or> map_of cs (target g) = None"
  proof (cases "link_loop cs h aggs")
    case (Inl e)
    then show ?thesis by blast
  next
    case (Inr h')
    from that obtain g where g: "g \<in> set aggs"
      "map_of cs (source g) = None \<or> map_of cs (target g) = None" by blast
    from link_loop_known [OF Inr g(1)] g(2) show ?thesis by auto
  qed
  have 5: "\<exists>e. ModelParser_init root_elem = Inl e"
    if x: "\<exists>agg_elem \<in> set (findall_descendants root_elem ''Aggregation'').
          element_get agg_elem ''source'' \<notin>
            (\<lambda>e. element_get e ''name'') ` set (findall_descendants root_elem ''Class'')
          \<or> element_get agg_elem ''target'' \<notin>
            (\<lambda>e. element_get e ''name'') ` set (findall_descendants root_elem ''Class'')"
  proof (cases "ModelParser_init root_elem")
    case (Inl e)
    then show ?thesis by blast
  next
    case (Inr r)
    obtain h' p where r: "r = (h', p)" by (cases r)
    with Inr have b: "ModelParser_init root_elem = Inr (h', p)" by simp
    from built_model(6) [OF b] obtain h0 where
      l: "link_loop (classes p) h0 (aggregations p) = Inr h'" by blast
    note k = built_model(4) [OF b] and a = built_model(5) [OF b]
    from x obtain ae where ae: "ae \<in> set (findall_descendants root_elem ''Aggregation'')"
      and n: "element_get ae ''source'' \<notin> set (dict_keys (classes p))
              \<or> element_get ae ''target'' \<notin> set (dict_keys (classes p))"
      unfolding k by blast
    from ae a have "parse_aggregation ae \<in> set (aggregations p)" by simp
    from link_loop_known [OF l this] obtain s t
      where "map_of (classes p) (element_get ae ''source'') = Some s"
        and "map_of (classes p) (element_get ae ''target'') = Some t"
      by (auto simp: parse_aggregation_def)
    then have "element_get ae ''source'' \<in> set (dict_keys (classes p))"
      and "element_get ae ''target'' \<in> set (dict_keys (classes p))"
      by (auto simp: dict_keys_def dest!: map_of_SomeD intro: rev_image_eqI)
    with n show ?thesis by blast
  qed
  from u have c1: "map_of cs (source agg) = None \<or> map_of cs (target agg) = None \<longrightarrow>
      link_aggregation cs h agg = Inl KeyError"
    by simp
  from u have c2: "link_aggregation cs h agg = Inl KeyError \<longrightarrow>
      map_of cs (source agg) = None \<or> map_of cs (target agg) = None"
    by simp
  from 3 have c3: "link_loop cs h before = Inr h1
        \<and> (map_of cs (source agg) = None \<or> map_of cs (target agg) = None) \<longrightarrow>
      link_loop cs h (before @ agg # rest) = Inl KeyError"
    by simp
  have c4: "(\<exists>g \<in> set aggs. map_of cs (source g) = None \<or> map_of cs (target g) = None) \<longrightarrow>
      (\<exists>e. link_loop cs h aggs = Inl e)"
    by (rule impI) (rule 4)
  have c5: "(\<exists>agg_elem \<in> set (findall_descendants root_elem ''Aggregation'').
          element_get agg_elem ''source'' \<notin>
            (\<lambda>e. element_get e ''name'') ` set (findall_descendants root_elem ''Class'')
          \<or> element_get agg_elem ''target'' \<notin>
            (\<lambda>e. element_get e ''name'') ` set (findall_descendants root_elem ''Class'')) \<longrightarrow>
      (\<exists>e. ModelParser_init root_elem = Inl e)"
    by (rule impI) (rule 5)
  from c1 c2 c3 c4 c5 show ?thesis by (intro conjI)
qed

theorem unknown_class_fails_witness:
  "Element (Some ''Aggregation'')
      [(''source'', ''X''), (''target'', ''A''), (''sourceMultiplicity'', ''1'')] None []
     \<in> set (findall_descendants dangling_model ''Aggregation'')
   \<and> element_get (Element (Some ''Aggregation'')
         [(''source'', ''X''), (''target'', ''A''), (''sourceMultiplicity'', ''1'')] None []) ''source''
       \<notin> (\<lambda>e. element_get e ''name'') ` set (findall_descendants dangling_model ''Class'')
   \<and> (\<exists>e. ModelParser_init dangling_model = Inl e)
   \<and> ModelParser_init dangling_model = Inl KeyError
   \<and> map_of [(Some ''A'', 0), (Some ''B'', 1::nat)] (source
         \<lparr>source = Some ''X'', target = Some ''A'', sourceMultiplicity = Some ''1'',
          targetMultiplicity = None\<rparr>) = None
   \<and> link_aggregation [(Some ''A'', 0), (Some ''B'', 1)] example_declared
         \<lparr>source = Some ''X'', target = Some ''A'', sourceMultiplicity = Some ''1'',
          targetMultiplicity = None\<rparr> = Inl KeyError"
proof -
  let ?ae = "Element (Some ''Aggregation'')
      [(''source'', ''X''), (''target'', ''A''), (''sourceMultiplicity'', ''1'')] None []"
  let ?g = "\<lparr>source = Some ''X'', target = Some ''A'', sourceMultiplicity = Some ''1'',
          targetMultiplicity = None\<rparr>"
  let ?cs = "[(Some ''A'', 0), (Some ''B'', 1::nat)]"
  have m: "?ae \<in> set (findall_descendants dangling_model ''Aggregation'')"
    by (simp add: dangling_model_def findall_descendants_def)
  have n: "element_get ?ae ''source''
       \<notin> (\<lambda>e. element_get e ''name'') ` set (findall_descendants dangling_model ''Class'')"
    by (simp add: dangling_model_def findall_descendants_def element_get_def)
  from m n have x: "\<exists>agg_elem \<in> set (findall_descendants dangling_model ''Aggregation'').
          element_get agg_elem ''source'' \<notin>
            (\<lambda>e. element_get e ''name'') ` set (findall_descendants dangling_model ''Class'')
          \<or> element_get agg_elem ''target'' \<notin>
            (\<lambda>e. element_get e ''name'') ` set (findall_descendants dangling_model ''Class'')"
    by (intro bexI disjI1)
  note t = unknown_class_fails [of ?cs ?g example_declared "[]" example_declared "[]" "[]"
      dangling_model]
  from t [THEN conjunct2, THEN conjunct2, THEN conjunct2, THEN conjunct2, THEN mp, OF x]
  have f: "\<exists>e. ModelParser_init dangling_model = Inl e" .
  have k: "ModelParser_init dangling_model = Inl KeyError"
    by (simp add: parse_defs dangling_model_def)
  have u: "map_of ?cs (source ?g) = None" by simp
  then have "map_of ?cs (source ?g) = None \<or> map_of ?cs (target ?g) = None" by (rule disjI1)
  from t [THEN conjunct1, THEN mp, OF this]
  have e: "link_aggregation ?cs example_declared ?g = Inl KeyError" .
  from m n f k u e show ?thesis by (intro conjI)
qed

text \<open>
  Claim C9.  In a heap without dangling references, the hierarchical generator returns
  for a class (with enough fuel, that is: after finitely many nested calls) when the
  containment below that class is acyclic; and when a class that can be reached from it
  contains itself, directly or through other classes, the generator returns for no
  amount of fuel: the recursion is unbounded.  The heaps that \<^verbatim>\<open>ModelParser\<close> builds have
  no dangling references (lemma \<open>built_model\<close>).  The depth of the calls is not bounded
  in the model; Python's recursion limit is outside it.
\<close>

theorem render_terminates_iff_acyclic:
  assumes "heap_closed h" and "class_info < length h"
  shows "(acyclic_below h class_info \<longrightarrow>
            (\<exists>n e. ConfigXMLGenerator_generate n h class_info = Some e))
       \<and> (\<not> acyclic_below h class_info \<longrightarrow>
            (\<forall>n. ConfigXMLGenerator_generate n h class_info = None))"
proof (intro conjI impI allI)
  assume "acyclic_below h class_info"
  with assms show "\<exists>n e. ConfigXMLGenerator_generate n h class_info = Some e"
    by (rule render_returns)
next
  fix n assume "\<not> acyclic_below h class_info"
  then obtain c where "(class_info, c) \<in> (containment h)\<^sup>*" "(c, c) \<in> (containment h)\<^sup>+"
    by (auto simp: acyclic_below_def)
  then show "ConfigXMLGenerator_generate n h class_info = None" by (rule render_diverges)
qed

theorem render_terminates_iff_acyclic_witness:
  "heap_closed example_heap \<and> 0 < length example_heap \<and> acyclic_below example_heap 0
   \<and> (\<exists>n e. ConfigXMLGenerator_generate n example_heap 0 = Some e)
   \<and> heap_closed cyclic_heap \<and> 0 < length cyclic_heap \<and> \<not> acyclic_below cyclic_heap 0
   \<and> (\<forall>n. ConfigXMLGenerator_generate n cyclic_heap 0 = None)"
proof -
  have l1: "0 < length example_heap" by (simp add: example_heap_def)
  have l2: "0 < length cyclic_heap" by (simp add: cyclic_heap_def)
  from render_terminates_iff_acyclic [OF example_heap_closed l1, THEN conjunct1, THEN mp,
      OF example_heap_acyclic]
  have r1: "\<exists>n e. ConfigXMLGenerator_generate n example_heap 0 = Some e" .
  from render_terminates_iff_acyclic [OF cyclic_heap_closed l2, THEN conjunct2, THEN mp,
      OF cyclic_heap_cyclic]
  have r2: "\<forall>n. ConfigXMLGenerator_generate n cyclic_heap 0 = None" .
  from example_heap_closed l1 example_heap_acyclic r1 cyclic_heap_closed l2 cyclic_heap_cyclic r2
  show ?thesis by (intro conjI)
qed

end
